theory Spec2Isabelle
  imports Main "HOL-Library.Word" "HOL-Library.Monad_Syntax"
begin

section \<open>Nodes and the heap\<close>

text \<open>
  Both implementations (\<^verbatim>\<open>momu::skip_list::SkipList\<close> in \<^verbatim>\<open>skip_list.h\<close> and
  \<^verbatim>\<open>xsf_skip_list::XSFSkipList\<close> in \<^verbatim>\<open>xsf_skip_list.h\<close>) build a graph of heap nodes
  that are linked by raw pointers, one forward pointer per level. The model keeps that
  graph: a node pointer is an address or \<open>None\<close> for \<^verbatim>\<open>nullptr\<close>, and the heap maps the
  addresses of the live nodes to their contents. Every function that dereferences a
  pointer returns an \<open>option\<close>: \<open>None\<close> stands for "no defined result" (a null or
  dangling pointer was dereferenced, an index was outside its array, or a loop does not
  terminate).
\<close>

type_synonym addr = nat
type_synonym ptr = "addr option"

record ('k, 'v) node =
  key :: 'k
  val :: 'v
  forward :: "ptr list"

text \<open>The node of \<^verbatim>\<open>xsf_skip_list.h\<close> stores its level as well.\<close>

record ('k, 'v) xsf_node = "('k, 'v) node" +
  node_level :: int

type_synonym ('k, 'v, 'z) heap = "addr \<Rightarrow> ('k, 'v, 'z) node_scheme option"

text \<open>Reading \<^verbatim>\<open>a->forward_[i]\<close> and writing \<^verbatim>\<open>a->forward_[i] = p\<close>.\<close>

definition fwd :: "('k, 'v, 'z) heap \<Rightarrow> addr \<Rightarrow> nat \<Rightarrow> ptr option" where
  "fwd h a i =
     (case h a of
        None \<Rightarrow> None
      | Some n \<Rightarrow> if i < length (forward n) then Some (forward n ! i) else None)"

definition set_fwd :: "('k, 'v, 'z) heap \<Rightarrow> addr \<Rightarrow> nat \<Rightarrow> ptr \<Rightarrow> ('k, 'v, 'z) heap option" where
  "set_fwd h a i p =
     (case h a of
        None \<Rightarrow> None
      | Some n \<Rightarrow>
          if i < length (forward n) then Some (h(a \<mapsto> n\<lparr>forward := (forward n)[i := p]\<rparr>))
          else None)"

text \<open>Reading \<^verbatim>\<open>predecessors[i]\<close> for a dereference: the index must be in range and the
  entry must not be null.\<close>

definition pred_at :: "ptr list \<Rightarrow> nat \<Rightarrow> addr option" where
  "pred_at predecessors i = (if i < length predecessors then predecessors ! i else None)"

section \<open>The search loops\<close>

text \<open>
  \<^verbatim>\<open>move_forward_in_level\<close> (\<^verbatim>\<open>skip_list.h\<close>, lines 131-138); the same \<^verbatim>\<open>while\<close> loop
  stands inline in \<^verbatim>\<open>search_element\<close>, \<^verbatim>\<open>insert_element\<close> and \<^verbatim>\<open>delete_element\<close> of
  \<^verbatim>\<open>xsf_skip_list.h\<close>. The loop follows pointers for as long as the next key is smaller,
  so on a cyclic heap it need not terminate: it is a partial function.
\<close>

partial_function (option) move_forward_in_level ::
  "('k::linorder, 'v, 'z) heap \<Rightarrow> addr \<Rightarrow> nat \<Rightarrow> 'k \<Rightarrow> addr option" where
  "move_forward_in_level h current level k =
     (case fwd h current level of
        None \<Rightarrow> None
      | Some None \<Rightarrow> Some current
      | Some (Some nxt) \<Rightarrow>
          (case h nxt of
             None \<Rightarrow> None
           | Some n \<Rightarrow>
               if key n < k then move_forward_in_level h nxt level k else Some current))"

declare move_forward_in_level.simps [code]

text \<open>
  The descending loop \<^verbatim>\<open>for (int i = current_max_level_; i >= 0; i--)\<close>. The first
  argument counts the levels still to visit, that is \<open>i + 1\<close>: at \<open>Suc i\<close> the body runs
  for level \<open>i\<close>, at \<open>0\<close> the loop is left.
\<close>

fun traverse_to_level_zero_loop ::
  "('k::linorder, 'v, 'z) heap \<Rightarrow> 'k \<Rightarrow> nat \<Rightarrow> addr \<Rightarrow> addr option" where
  "traverse_to_level_zero_loop h k 0 current = Some current"
| "traverse_to_level_zero_loop h k (Suc i) current =
     (case move_forward_in_level h current i k of
        None \<Rightarrow> None
      | Some c \<Rightarrow> traverse_to_level_zero_loop h k i c)"

text \<open>The same loop recording \<^verbatim>\<open>predecessors[i] = current\<close> (\<^verbatim>\<open>update[i] = current\<close> in
  \<^verbatim>\<open>xsf_skip_list.h\<close>); it returns the last \<^verbatim>\<open>current\<close> and the array.\<close>

fun traverse_and_collect_predecessors_loop ::
  "('k::linorder, 'v, 'z) heap \<Rightarrow> 'k \<Rightarrow> nat \<Rightarrow> addr \<Rightarrow> ptr list \<Rightarrow> (addr \<times> ptr list) option" where
  "traverse_and_collect_predecessors_loop h k 0 current predecessors =
     Some (current, predecessors)"
| "traverse_and_collect_predecessors_loop h k (Suc i) current predecessors =
     (case move_forward_in_level h current i k of
        None \<Rightarrow> None
      | Some c \<Rightarrow>
          if i < length predecessors
          then traverse_and_collect_predecessors_loop h k i c (predecessors[i := Some c])
          else None)"

text \<open>\<^verbatim>\<open>get_target_node\<close> and \<^verbatim>\<open>get_node_at_level_zero\<close> (\<^verbatim>\<open>skip_list.h\<close>, lines 140-154):
  the level-0 successor of the predecessor when its key is the one searched, else null.\<close>

definition get_target_node ::
  "('k, 'v, 'z) heap \<Rightarrow> ptr \<Rightarrow> 'k \<Rightarrow> ptr option" where
  "get_target_node h predecessor k =
     (case predecessor of
        None \<Rightarrow> None
      | Some p \<Rightarrow>
          (case fwd h p 0 of
             None \<Rightarrow> None
           | Some None \<Rightarrow> Some None
           | Some (Some target) \<Rightarrow>
               (case h target of
                  None \<Rightarrow> None
                | Some n \<Rightarrow> if key n = k then Some (Some target) else Some None)))"

definition get_node_at_level_zero ::
  "('k, 'v, 'z) heap \<Rightarrow> ptr \<Rightarrow> 'k \<Rightarrow> ptr option" where
  "get_node_at_level_zero h predecessor k =
     (case predecessor of
        None \<Rightarrow> None
      | Some p \<Rightarrow>
          (case fwd h p 0 of
             None \<Rightarrow> None
           | Some None \<Rightarrow> Some None
           | Some (Some nd) \<Rightarrow>
               (case h nd of
                  None \<Rightarrow> None
                | Some n \<Rightarrow> if key n = k then Some (Some nd) else Some None)))"

section \<open>The splicing loops, level by level\<close>

text \<open>The body of the loop of \<^verbatim>\<open>insert_node_at_all_levels\<close> at level \<open>i\<close>:
  \<^verbatim>\<open>node->forward_[i] = predecessors[i]->forward_[i]; predecessors[i]->forward_[i] = node;\<close>\<close>

definition insert_node_at_level ::
  "nat \<Rightarrow> addr \<Rightarrow> ptr list \<Rightarrow> ('k, 'v, 'z) heap \<Rightarrow> ('k, 'v, 'z) heap option" where
  "insert_node_at_level i nd predecessors h =
     do {
       p \<leftarrow> pred_at predecessors i;
       x \<leftarrow> fwd h p i;
       h1 \<leftarrow> set_fwd h nd i x;
       set_fwd h1 p i (Some nd)
     }"

text \<open>The body of the loop of \<^verbatim>\<open>disconnect_node_from_levels\<close> at level \<open>i\<close>:
  \<^verbatim>\<open>if (predecessors[i]->forward_[i] == node) predecessors[i]->forward_[i] = node->forward_[i];\<close>\<close>

definition disconnect_node_from_level ::
  "nat \<Rightarrow> addr \<Rightarrow> ptr list \<Rightarrow> ('k, 'v, 'z) heap \<Rightarrow> ('k, 'v, 'z) heap option" where
  "disconnect_node_from_level i nd predecessors h =
     do {
       p \<leftarrow> pred_at predecessors i;
       x \<leftarrow> fwd h p i;
       if x = Some nd then do { y \<leftarrow> fwd h nd i; set_fwd h p i y } else Some h
     }"

text \<open>The ascending loops over \<open>n\<close> consecutive levels starting at level \<open>i\<close>, with a
  loop counter that cannot overflow (\<^verbatim>\<open>int i\<close> in \<^verbatim>\<open>xsf_skip_list.h\<close>).\<close>

fun insert_levels ::
  "nat \<Rightarrow> nat \<Rightarrow> addr \<Rightarrow> ptr list \<Rightarrow> ('k, 'v, 'z) heap \<Rightarrow> ('k, 'v, 'z) heap option" where
  "insert_levels 0 i nd predecessors h = Some h"
| "insert_levels (Suc n) i nd predecessors h =
     (case insert_node_at_level i nd predecessors h of
        None \<Rightarrow> None
      | Some h' \<Rightarrow> insert_levels n (Suc i) nd predecessors h')"

fun disconnect_levels ::
  "nat \<Rightarrow> nat \<Rightarrow> addr \<Rightarrow> ptr list \<Rightarrow> ('k, 'v, 'z) heap \<Rightarrow> ('k, 'v, 'z) heap option" where
  "disconnect_levels 0 i nd predecessors h = Some h"
| "disconnect_levels (Suc n) i nd predecessors h =
     (case disconnect_node_from_level i nd predecessors h of
        None \<Rightarrow> None
      | Some h' \<Rightarrow> disconnect_levels n (Suc i) nd predecessors h')"

fun header_levels :: "nat \<Rightarrow> nat \<Rightarrow> addr \<Rightarrow> ptr list \<Rightarrow> ptr list option" where
  "header_levels 0 i hdr predecessors = Some predecessors"
| "header_levels (Suc n) i hdr predecessors =
     (if i < length predecessors
      then header_levels n (Suc i) hdr (predecessors[i := Some hdr])
      else None)"

text \<open>The shrinking loop \<^verbatim>\<open>while (level > 0 && header->forward_[level] == nullptr) level--;\<close>
  on a level that is a natural number.\<close>

fun shrink_level :: "('k, 'v, 'z) heap \<Rightarrow> addr \<Rightarrow> nat \<Rightarrow> nat option" where
  "shrink_level h hdr 0 = Some 0"
| "shrink_level h hdr (Suc c) =
     (case fwd h hdr (Suc c) of
        None \<Rightarrow> None
      | Some None \<Rightarrow> shrink_level h hdr c
      | Some (Some a) \<Rightarrow> Some (Suc c))"

section \<open>\<^verbatim>\<open>momu::skip_list::SkipList\<close> (\<^verbatim>\<open>skip_list.h\<close>)\<close>

text \<open>
  The fields of the class. \<^verbatim>\<open>max_level_\<close> and \<^verbatim>\<open>current_max_level_\<close> are \<^verbatim>\<open>uint8_t\<close>.
  \<^verbatim>\<open>element_count_\<close> is a \<^verbatim>\<open>size_t\<close>; it is a natural number here, with the wrap of the
  decrement at zero written out (it counts live nodes, so the increment cannot reach
  \<open>2 ^ 64\<close>). \<open>gen\<close> is the state of the instance's generator \<^verbatim>\<open>gen_\<close> as seen through
  \<^verbatim>\<open>distribution_(gen_)\<close>: the outcomes of the coin flips still to come, the next one at
  index 0. \<open>heap\<close> holds the nodes the list owns, and \<open>next_addr\<close> is the address that the
  next \<^verbatim>\<open>new Node\<close> returns (addresses are never reused).
\<close>

record ('k, 'v) skip_list =
  max_level :: "8 word"
  current_max_level :: "8 word"
  header :: addr
  element_count :: nat
  gen :: "nat \<Rightarrow> bool"
  heap :: "('k, 'v, unit) heap"
  next_addr :: addr

text \<open>\<^verbatim>\<open>create_node\<close>: \<^verbatim>\<open>new Node<K, V>(key, value, level)\<close>, whose constructor makes
  \<^verbatim>\<open>forward_(level + 1, nullptr)\<close>; the sum is computed in \<^verbatim>\<open>int\<close>.\<close>

definition create_node ::
  "('k, 'v) skip_list \<Rightarrow> 'k \<Rightarrow> 'v \<Rightarrow> 8 word \<Rightarrow> addr \<times> ('k, 'v) skip_list" where
  "create_node s k v level =
     (next_addr s,
      s\<lparr>heap := (heap s)(next_addr s \<mapsto>
             \<lparr>key = k, val = v, forward = replicate (unat level + 1) None\<rparr>),
        next_addr := Suc (next_addr s)\<rparr>)"

text \<open>The constructor. The seeded generator is given by the coin flips it will produce;
  \<open>k0\<close> and \<open>v0\<close> are the value-initialised \<^verbatim>\<open>K{}\<close> and \<^verbatim>\<open>V{}\<close> of the header node.\<close>

definition SkipList :: "8 word \<Rightarrow> (nat \<Rightarrow> bool) \<Rightarrow> 'k \<Rightarrow> 'v \<Rightarrow> ('k, 'v) skip_list" where
  "SkipList m coins k0 v0 =
     (let s0 = \<lparr>max_level = m, current_max_level = 0, header = 0, element_count = 0,
                gen = coins, heap = (\<lambda>a. None), next_addr = 0\<rparr>;
          (a, s1) = create_node s0 k0 v0 (max_level s0)
      in s1\<lparr>header := a\<rparr>)"

definition traverse_to_level_zero :: "('k::linorder, 'v) skip_list \<Rightarrow> 'k \<Rightarrow> ptr option" where
  "traverse_to_level_zero s k =
     do {
       current \<leftarrow> traverse_to_level_zero_loop (heap s) k
                    (Suc (unat (current_max_level s))) (header s);
       get_target_node (heap s) (Some current) k
     }"

definition find_node :: "('k::linorder, 'v) skip_list \<Rightarrow> 'k \<Rightarrow> ptr option" where
  "find_node s k = traverse_to_level_zero s k"

definition traverse_and_collect_predecessors ::
  "('k::linorder, 'v) skip_list \<Rightarrow> 'k \<Rightarrow> ptr list \<Rightarrow> ptr list option" where
  "traverse_and_collect_predecessors s k predecessors =
     map_option snd
       (traverse_and_collect_predecessors_loop (heap s) k
          (Suc (unat (current_max_level s))) (header s) predecessors)"

definition find_predecessors :: "('k::linorder, 'v) skip_list \<Rightarrow> 'k \<Rightarrow> ptr list option" where
  "find_predecessors s k =
     traverse_and_collect_predecessors s k (replicate (unat (max_level s) + 1) None)"

definition update_existing_node ::
  "('k, 'v) skip_list \<Rightarrow> addr \<Rightarrow> 'v \<Rightarrow> ('k, 'v) skip_list option" where
  "update_existing_node s nd v =
     (case heap s nd of
        None \<Rightarrow> None
      | Some n \<Rightarrow> Some (s\<lparr>heap := (heap s)(nd \<mapsto> n\<lparr>val := v\<rparr>)\<rparr>))"

text \<open>\<^verbatim>\<open>generate_random_level\<close>: the condition \<^verbatim>\<open>distribution_(gen_) && level < max_level_\<close>
  flips the coin first, so every evaluation consumes one flip.\<close>

function generate_random_level_loop ::
  "8 word \<Rightarrow> (nat \<Rightarrow> bool) \<Rightarrow> 8 word \<Rightarrow> 8 word \<times> (nat \<Rightarrow> bool)" where
  "generate_random_level_loop m g level =
     (if g 0 \<and> level < m then generate_random_level_loop m (\<lambda>n. g (Suc n)) (level + 1)
      else (level, \<lambda>n. g (Suc n)))"
  by pat_completeness auto
termination
proof (relation "measure (\<lambda>(m, g, level). unat m - unat level)")
  show "wf (measure (\<lambda>(m, g, level). unat m - unat level))"
    by simp
next
  fix m :: "8 word" and g :: "nat \<Rightarrow> bool" and level :: "8 word"
  assume "g 0 \<and> level < m"
  then have lt: "unat level < unat m"
    by (simp add: word_less_nat_alt)
  moreover have "unat m < 2 ^ LENGTH(8)"
    by (rule unsigned_less)
  ultimately have "unat (level + 1) = Suc (unat level)"
    using unat_add_lem [of level 1] by simp
  with lt show "((m, \<lambda>n. g (Suc n), level + 1), (m, g, level))
      \<in> measure (\<lambda>(m, g, level). unat m - unat level)"
    by simp
qed

declare generate_random_level_loop.simps [simp del]

definition generate_random_level ::
  "('k, 'v) skip_list \<Rightarrow> 8 word \<times> ('k, 'v) skip_list" where
  "generate_random_level s =
     (let (level, g) = generate_random_level_loop (max_level s) (gen s) 0
      in (level, s\<lparr>gen := g\<rparr>))"

text \<open>\<^verbatim>\<open>adjust_max_level_for_insertion\<close>: the loop counter is a \<^verbatim>\<open>uint8_t\<close>, so \<open>i + 1\<close> wraps
  at 255 and the loop \<^verbatim>\<open>for (uint8_t i = ...; i <= new_level; i++)\<close> need not terminate.\<close>

partial_function (option) adjust_max_level_for_insertion_loop ::
  "8 word \<Rightarrow> 8 word \<Rightarrow> addr \<Rightarrow> ptr list \<Rightarrow> ptr list option" where
  "adjust_max_level_for_insertion_loop i new_level hdr predecessors =
     (if i \<le> new_level
      then (if unat i < length predecessors
            then adjust_max_level_for_insertion_loop (i + 1) new_level hdr
                   (predecessors[unat i := Some hdr])
            else None)
      else Some predecessors)"

declare adjust_max_level_for_insertion_loop.simps [code]

definition adjust_max_level_for_insertion ::
  "('k, 'v) skip_list \<Rightarrow> 8 word \<Rightarrow> ptr list \<Rightarrow> (ptr list \<times> ('k, 'v) skip_list) option" where
  "adjust_max_level_for_insertion s new_level predecessors =
     (if new_level > current_max_level s
      then do {
        predecessors' \<leftarrow> adjust_max_level_for_insertion_loop (current_max_level s + 1)
                            new_level (header s) predecessors;
        Some (predecessors', s\<lparr>current_max_level := new_level\<rparr>)
      }
      else Some (predecessors, s))"

partial_function (option) insert_node_at_all_levels_loop ::
  "8 word \<Rightarrow> 8 word \<Rightarrow> addr \<Rightarrow> ptr list \<Rightarrow> ('k, 'v, 'z) heap \<Rightarrow> ('k, 'v, 'z) heap option" where
  "insert_node_at_all_levels_loop i level nd predecessors h =
     (if i \<le> level
      then (case insert_node_at_level (unat i) nd predecessors h of
              None \<Rightarrow> None
            | Some h' \<Rightarrow> insert_node_at_all_levels_loop (i + 1) level nd predecessors h')
      else Some h)"

declare insert_node_at_all_levels_loop.simps [code]

definition insert_node_at_all_levels ::
  "('k, 'v) skip_list \<Rightarrow> addr \<Rightarrow> ptr list \<Rightarrow> 8 word \<Rightarrow> ('k, 'v) skip_list option" where
  "insert_node_at_all_levels s nd predecessors level =
     do {
       h \<leftarrow> insert_node_at_all_levels_loop 0 level nd predecessors (heap s);
       Some (s\<lparr>heap := h\<rparr>)
     }"

definition insert_new_node ::
  "('k, 'v) skip_list \<Rightarrow> 'k \<Rightarrow> 'v \<Rightarrow> ptr list \<Rightarrow> ('k, 'v) skip_list option" where
  "insert_new_node s k v predecessors =
     (let (new_level, s1) = generate_random_level s in
      do {
        (predecessors', s2) \<leftarrow> adjust_max_level_for_insertion s1 new_level predecessors;
        let (new_node, s3) = create_node s2 k v new_level;
        s4 \<leftarrow> insert_node_at_all_levels s3 new_node predecessors' new_level;
        Some (s4\<lparr>element_count := element_count s4 + 1\<rparr>)
      })"

partial_function (option) disconnect_node_from_levels_loop ::
  "8 word \<Rightarrow> 8 word \<Rightarrow> addr \<Rightarrow> ptr list \<Rightarrow> ('k, 'v, 'z) heap \<Rightarrow> ('k, 'v, 'z) heap option" where
  "disconnect_node_from_levels_loop i level nd predecessors h =
     (if i \<le> level
      then (case disconnect_node_from_level (unat i) nd predecessors h of
              None \<Rightarrow> None
            | Some h' \<Rightarrow> disconnect_node_from_levels_loop (i + 1) level nd predecessors h')
      else Some h)"

declare disconnect_node_from_levels_loop.simps [code]

definition disconnect_node_from_levels ::
  "('k, 'v) skip_list \<Rightarrow> addr \<Rightarrow> ptr list \<Rightarrow> ('k, 'v) skip_list option" where
  "disconnect_node_from_levels s nd predecessors =
     do {
       h \<leftarrow> disconnect_node_from_levels_loop 0 (current_max_level s) nd predecessors (heap s);
       Some (s\<lparr>heap := h\<rparr>)
     }"

text \<open>\<^verbatim>\<open>delete_node\<close>: unlink, \<^verbatim>\<open>delete node\<close>, \<^verbatim>\<open>element_count_--\<close> (a \<^verbatim>\<open>size_t\<close>, which
  wraps at zero).\<close>

definition delete_node ::
  "('k, 'v) skip_list \<Rightarrow> addr \<Rightarrow> ptr list \<Rightarrow> ('k, 'v) skip_list option" where
  "delete_node s nd predecessors =
     do {
       s1 \<leftarrow> disconnect_node_from_levels s nd predecessors;
       (case heap s1 nd of
          None \<Rightarrow> None
        | Some n \<Rightarrow>
            Some (s1\<lparr>heap := (heap s1)(nd := None),
                    element_count :=
                      (if element_count s1 = 0 then 2 ^ 64 - 1 else element_count s1 - 1)\<rparr>))
     }"

function adjust_max_level_loop ::
  "('k, 'v, 'z) heap \<Rightarrow> addr \<Rightarrow> 8 word \<Rightarrow> 8 word option" where
  "adjust_max_level_loop h hdr c =
     (if c > 0
      then (case fwd h hdr (unat c) of
              None \<Rightarrow> None
            | Some None \<Rightarrow> adjust_max_level_loop h hdr (c - 1)
            | Some (Some a) \<Rightarrow> Some c)
      else Some c)"
  by pat_completeness auto
termination
proof (relation "measure (\<lambda>(h, hdr, c). unat c)")
  show "wf (measure (\<lambda>(h, hdr, c). unat c))"
    by simp
next
  fix h :: "('k, 'v, 'z) heap" and hdr :: addr and c :: "8 word"
  assume "0 < c"
  then have "unat (c - 1) < unat c"
    by (simp add: measure_unat)
  then show "((h, hdr, c - 1), (h, hdr, c)) \<in> measure (\<lambda>(h, hdr, c). unat c)"
    by simp
qed

declare adjust_max_level_loop.simps [simp del]

definition adjust_max_level :: "('k, 'v) skip_list \<Rightarrow> ('k, 'v) skip_list option" where
  "adjust_max_level s =
     do {
       c \<leftarrow> adjust_max_level_loop (heap s) (header s) (current_max_level s);
       Some (s\<lparr>current_max_level := c\<rparr>)
     }"

subsection \<open>The public operations\<close>

definition put :: "('k::linorder, 'v) skip_list \<Rightarrow> 'k \<Rightarrow> 'v \<Rightarrow> ('k, 'v) skip_list option" where
  "put s k v =
     do {
       predecessors \<leftarrow> find_predecessors s k;
       existing_node \<leftarrow> get_node_at_level_zero (heap s) (predecessors ! 0) k;
       (case existing_node of
          Some nd \<Rightarrow> update_existing_node s nd v
        | None \<Rightarrow> insert_new_node s k v predecessors)
     }"

definition get :: "('k::linorder, 'v) skip_list \<Rightarrow> 'k \<Rightarrow> 'v option option" where
  "get s k =
     do {
       nd \<leftarrow> find_node s k;
       (case nd of
          Some a \<Rightarrow> (case heap s a of None \<Rightarrow> None | Some n \<Rightarrow> Some (Some (val n)))
        | None \<Rightarrow> Some None)
     }"

definition contains :: "('k::linorder, 'v) skip_list \<Rightarrow> 'k \<Rightarrow> bool option" where
  "contains s k = map_option (\<lambda>nd. nd \<noteq> None) (find_node s k)"

definition remove :: "('k::linorder, 'v) skip_list \<Rightarrow> 'k \<Rightarrow> (bool \<times> ('k, 'v) skip_list) option" where
  "remove s k =
     do {
       predecessors \<leftarrow> find_predecessors s k;
       node_to_delete \<leftarrow> get_node_at_level_zero (heap s) (predecessors ! 0) k;
       (case node_to_delete of
          None \<Rightarrow> Some (False, s)
        | Some nd \<Rightarrow>
            do {
              s1 \<leftarrow> delete_node s nd predecessors;
              s2 \<leftarrow> adjust_max_level s1;
              Some (True, s2)
            })
     }"

definition size_of :: "('k, 'v) skip_list \<Rightarrow> nat" where
  "size_of s = element_count s"

definition is_empty :: "('k, 'v) skip_list \<Rightarrow> bool" where
  "is_empty s = (element_count s = 0)"

section \<open>Abstraction of the heap: level chains\<close>

text \<open>
  The specification talks about the chain of nodes that is reachable from the header at
  each level. \<open>nlen h a\<close> is the length of the forward array of the node at \<open>a\<close> (its
  level plus one), \<open>nx h i a\<close> its level-\<open>i\<close> successor, and \<open>linked f as q\<close> says that
  following \<open>f\<close> from the first node of \<open>as\<close> visits exactly the nodes of \<open>as\<close>, in
  order, and then reaches \<open>q\<close>.
\<close>

definition nlen :: "('k, 'v, 'z) heap \<Rightarrow> addr \<Rightarrow> nat" where
  "nlen h a = (case h a of None \<Rightarrow> 0 | Some n \<Rightarrow> length (forward n))"

definition nx :: "('k, 'v, 'z) heap \<Rightarrow> nat \<Rightarrow> addr \<Rightarrow> ptr" where
  "nx h i a = (case fwd h a i of None \<Rightarrow> None | Some p \<Rightarrow> p)"

definition key_of :: "('k, 'v, 'z) heap \<Rightarrow> addr \<Rightarrow> 'k" where
  "key_of h a = key (the (h a))"

definition val_of :: "('k, 'v, 'z) heap \<Rightarrow> addr \<Rightarrow> 'v" where
  "val_of h a = val (the (h a))"

definition first_ptr :: "addr list \<Rightarrow> ptr \<Rightarrow> ptr" where
  "first_ptr as q = (case as of [] \<Rightarrow> q | b # bs \<Rightarrow> Some b)"

fun linked :: "(addr \<Rightarrow> ptr) \<Rightarrow> addr list \<Rightarrow> ptr \<Rightarrow> bool" where
  "linked f [] q = True"
| "linked f (a # as) q = (f a = first_ptr as q \<and> linked f as q)"

definition level_list :: "('k, 'v, 'z) heap \<Rightarrow> nat \<Rightarrow> addr list \<Rightarrow> addr list" where
  "level_list h i as = filter (\<lambda>a. i < nlen h a) as"

lemma first_ptr_simps [simp]:
  "first_ptr [] q = q" "first_ptr (b # bs) q = Some b"
  by (simp_all add: first_ptr_def)

lemma first_ptr_append: "first_ptr (xs @ ys) q = first_ptr xs (first_ptr ys q)"
  by (cases xs) simp_all

lemma linked_append:
  "linked f (xs @ ys) q \<longleftrightarrow> linked f xs (first_ptr ys q) \<and> linked f ys q"
  by (induction xs) (auto simp: first_ptr_append)

lemma linked_cong:
  "(\<And>a. a \<in> set as \<Longrightarrow> f a = g a) \<Longrightarrow> linked f as q = linked g as q"
  by (induction as) auto

lemma linked_upd_notin: "u \<notin> set as \<Longrightarrow> linked (f(u := v)) as q = linked f as q"
  by (rule linked_cong) auto

lemma linked_splice_in:
  assumes l: "linked f (us @ p # vs) q"
    and d: "distinct (us @ p # vs)"
    and n: "new \<notin> set (us @ p # vs)"
  shows "linked (f(new := f p, p := Some new)) (us @ p # new # vs) q"
proof -
  let ?g = "f(new := f p, p := Some new)"
  from l have lu: "linked f us (Some p)" and fp: "f p = first_ptr vs q" and lv: "linked f vs q"
    by (simp_all add: linked_append)
  have "linked ?g us (Some p)"
    using lu d n by (subst linked_cong [of us ?g f]) auto
  moreover have "linked ?g vs q"
    using lv d n by (subst linked_cong [of vs ?g f]) auto
  moreover have "?g new = first_ptr vs q"
    using fp n by auto
  ultimately show ?thesis
    by (simp add: linked_append)
qed

lemma linked_splice_out:
  assumes l: "linked f (us @ p # t # vs) q"
    and d: "distinct (us @ p # t # vs)"
  shows "linked (f(p := f t)) (us @ p # vs) q"
proof -
  let ?g = "f(p := f t)"
  from l have lu: "linked f us (Some p)" and ft: "f t = first_ptr vs q" and lv: "linked f vs q"
    by (simp_all add: linked_append)
  have "linked ?g us (Some p)"
    using lu d by (subst linked_cong [of us ?g f]) auto
  moreover have "linked ?g vs q"
    using lv d by (subst linked_cong [of vs ?g f]) auto
  ultimately show ?thesis
    using ft by (simp add: linked_append)
qed

lemma nlen_SomeD: "i < nlen h a \<Longrightarrow> \<exists>n. h a = Some n \<and> i < length (forward n)"
  by (auto simp: nlen_def split: option.splits)

lemma fwd_nx: "fwd h a i = (if i < nlen h a then Some (nx h i a) else None)"
  by (auto simp: fwd_def nx_def nlen_def split: option.splits)

lemma move_forward_in_level_linked:
  "linked (nx h i) (cur # rest) None \<Longrightarrow> \<forall>a\<in>set (cur # rest). i < nlen h a \<Longrightarrow>
   move_forward_in_level h cur i k =
     Some (last (cur # takeWhile (\<lambda>a. key_of h a < k) rest))"
proof (induction rest arbitrary: cur)
  case Nil
  then show ?case
    by (subst move_forward_in_level.simps) (simp add: fwd_nx)
next
  case (Cons b rest)
  from Cons.prems obtain n where n: "h b = Some n"
    by (auto dest: nlen_SomeD)
  have step: "fwd h cur i = Some (Some b)"
    using Cons.prems by (simp add: fwd_nx)
  show ?case
  proof (cases "key n < k")
    case True
    have "move_forward_in_level h cur i k = move_forward_in_level h b i k"
      using step n True by (subst move_forward_in_level.simps) simp
    also have "\<dots> = Some (last (b # takeWhile (\<lambda>a. key_of h a < k) rest))"
      using Cons.prems by (intro Cons.IH) simp_all
    finally show ?thesis
      using True n by (simp add: key_of_def)
  next
    case False
    then show ?thesis
      using step n by (subst move_forward_in_level.simps) (simp add: key_of_def)
  qed
qed

section \<open>The search: predecessors at every level\<close>

text \<open>
  \<open>wf_heap h hdr m c as\<close>: the header has \<open>m + 1\<close> forward pointers, the nodes \<open>as\<close> are
  the level-0 chain in strictly increasing key order, each of level at most \<open>c\<close>, and at
  every level \<open>i\<close> the chain from the header is the sublist of the nodes that have a level
  \<open>i\<close>.
\<close>

definition wf_heap ::
  "('k::linorder, 'v, 'z) heap \<Rightarrow> addr \<Rightarrow> nat \<Rightarrow> nat \<Rightarrow> addr list \<Rightarrow> bool" where
  "wf_heap h hdr m c as \<longleftrightarrow>
     nlen h hdr = Suc m \<and> c \<le> m \<and> hdr \<notin> set as \<and> distinct as \<and>
     (\<forall>a\<in>set as. 0 < nlen h a \<and> nlen h a \<le> Suc c) \<and>
     sorted_wrt (<) (map (key_of h) as) \<and>
     (\<forall>i\<le>m. linked (nx h i) (hdr # level_list h i as) None)"

definition below :: "('k::linorder, 'v, 'z) heap \<Rightarrow> 'k \<Rightarrow> addr list \<Rightarrow> addr list" where
  "below h k as = takeWhile (\<lambda>a. key_of h a < k) as"

definition from_key :: "('k::linorder, 'v, 'z) heap \<Rightarrow> 'k \<Rightarrow> addr list \<Rightarrow> addr list" where
  "from_key h k as = dropWhile (\<lambda>a. key_of h a < k) as"

definition pred_node ::
  "('k::linorder, 'v, 'z) heap \<Rightarrow> addr \<Rightarrow> addr list \<Rightarrow> 'k \<Rightarrow> nat \<Rightarrow> addr" where
  "pred_node h hdr as k i = last (hdr # level_list h i (below h k as))"

definition lookup_addr :: "('k::linorder, 'v, 'z) heap \<Rightarrow> addr list \<Rightarrow> 'k \<Rightarrow> ptr" where
  "lookup_addr h as k =
     (case from_key h k as of
        [] \<Rightarrow> None
      | a # bs \<Rightarrow> if key_of h a = k then Some a else None)"

lemma below_from_key: "below h k as @ from_key h k as = as"
  by (simp add: below_def from_key_def)

lemma below_lt: "a \<in> set (below h k as) \<Longrightarrow> key_of h a < k"
  unfolding below_def by (rule set_takeWhileD [THEN conjunct2])

lemma from_key_ge:
  "sorted_wrt (<) (map (key_of h) as) \<Longrightarrow> a \<in> set (from_key h k as) \<Longrightarrow> \<not> key_of h a < k"
proof (induction as)
  case Nil
  then show ?case by (simp add: from_key_def)
next
  case (Cons b as)
  show ?case
  proof (cases "key_of h b < k")
    case True
    then show ?thesis
      using Cons by (simp add: from_key_def)
  next
    case False
    then have "from_key h k (b # as) = b # as"
      by (simp add: from_key_def)
    then show ?thesis
      using Cons.prems False by auto
  qed
qed

lemma level_list_split:
  "level_list h i as = level_list h i (below h k as) @ level_list h i (from_key h k as)"
  unfolding level_list_def filter_append [symmetric] below_from_key ..

lemma level_list_Suc_subset: "set (level_list h (Suc i) as) \<subseteq> set (level_list h i as)"
  by (auto simp: level_list_def)

lemma level_list_subset: "set (level_list h i as) \<subseteq> set as"
  by (auto simp: level_list_def)

lemma level_list_zero:
  "\<forall>a\<in>set as. 0 < nlen h a \<Longrightarrow> level_list h 0 as = as"
  by (simp add: level_list_def)

lemma level_list_above:
  "\<forall>a\<in>set as. nlen h a \<le> i \<Longrightarrow> level_list h i as = []"
  by (auto simp: level_list_def filter_empty_conv)

lemma takeWhile_all_then_none:
  "\<forall>x\<in>set xs. P x \<Longrightarrow> \<forall>y\<in>set ys. \<not> P y \<Longrightarrow> takeWhile P (xs @ ys) = xs"
  by (induction xs) (auto simp: takeWhile_eq_Nil_iff)

lemma linked_last: "xs \<noteq> [] \<Longrightarrow> linked f xs q \<Longrightarrow> f (last xs) = q"
  by (induction xs) (auto split: if_splits)

lemma pred_node_in:
  "pred_node h hdr as k i \<in> set (hdr # level_list h i (below h k as))"
  unfolding pred_node_def by (rule last_in_set) simp

lemma pred_node_above:
  "wf_heap h hdr m c as \<Longrightarrow> c < i \<Longrightarrow> pred_node h hdr as k i = hdr"
proof -
  assume wf: "wf_heap h hdr m c as" and ci: "c < i"
  have "\<forall>a\<in>set (below h k as). nlen h a \<le> i"
  proof
    fix a assume "a \<in> set (below h k as)"
    then have "a \<in> set as"
      by (metis below_from_key Un_iff set_append)
    then show "nlen h a \<le> i"
      using wf ci by (auto simp: wf_heap_def)
  qed
  then show ?thesis
    by (simp add: pred_node_def level_list_above)
qed

lemma move_forward_in_level_wf:
  assumes wf: "wf_heap h hdr m c as" and im: "i \<le> m"
    and cur: "cur \<in> set (hdr # level_list h i (below h k as))"
  shows "move_forward_in_level h cur i k = Some (pred_node h hdr as k i)"
proof -
  let ?P = "\<lambda>a. key_of h a < k"
  let ?xs = "hdr # level_list h i (below h k as)"
  let ?ys = "level_list h i (from_key h k as)"
  from cur obtain us vs where split: "?xs = us @ cur # vs"
    by (meson split_list)
  have whole: "hdr # level_list h i as = us @ cur # vs @ ?ys"
    using split by (subst level_list_split [of h i as k]) simp
  have lk: "linked (nx h i) (hdr # level_list h i as) None"
    using wf im by (simp add: wf_heap_def)
  then have l2: "linked (nx h i) (cur # vs @ ?ys) None"
    unfolding whole by (simp add: linked_append)
  have lev: "\<forall>a\<in>set (cur # vs @ ?ys). i < nlen h a"
  proof
    fix a assume "a \<in> set (cur # vs @ ?ys)"
    then have "a \<in> set (hdr # level_list h i as)"
      unfolding whole by auto
    then show "i < nlen h a"
      using wf im by (auto simp: wf_heap_def level_list_def)
  qed
  have vs_lt: "\<forall>x\<in>set vs. ?P x"
  proof
    fix x assume "x \<in> set vs"
    then have "x \<in> set (tl ?xs)"
      unfolding split by (cases us) auto
    then have "x \<in> set (below h k as)"
      using level_list_subset by fastforce
    then show "?P x"
      by (rule below_lt)
  qed
  have ys_ge: "\<forall>y\<in>set ?ys. \<not> ?P y"
  proof
    fix y assume "y \<in> set ?ys"
    then have "y \<in> set (from_key h k as)"
      using level_list_subset by fastforce
    then show "\<not> ?P y"
      using wf by (auto simp: wf_heap_def dest: from_key_ge)
  qed
  have "move_forward_in_level h cur i k = Some (last (cur # takeWhile ?P (vs @ ?ys)))"
    using l2 lev by (rule move_forward_in_level_linked)
  also have "takeWhile ?P (vs @ ?ys) = vs"
    using vs_lt ys_ge by (rule takeWhile_all_then_none)
  also have "last (cur # vs) = last ?xs"
    unfolding split by simp
  finally show ?thesis
    by (simp add: pred_node_def)
qed

lemma pred_node_next_level:
  "pred_node h hdr as k (Suc i) \<in> set (hdr # level_list h i (below h k as))"
  using pred_node_in [of h hdr as k "Suc i"] level_list_Suc_subset [of h i "below h k as"]
  by auto

lemma traverse_to_level_zero_loop_wf:
  assumes wf: "wf_heap h hdr m c as"
  shows "n \<le> Suc m \<Longrightarrow> (n = 0 \<or> cur \<in> set (hdr # level_list h (n - 1) (below h k as))) \<Longrightarrow>
    traverse_to_level_zero_loop h k n cur =
      Some (if n = 0 then cur else pred_node h hdr as k 0)"
proof (induction n arbitrary: cur)
  case 0
  then show ?case by simp
next
  case (Suc i)
  then have mv: "move_forward_in_level h cur i k = Some (pred_node h hdr as k i)"
    using wf by (intro move_forward_in_level_wf [where m = m and c = c]) simp_all
  show ?case
  proof (cases i)
    case 0
    then show ?thesis
      using mv by simp
  next
    case (Suc j)
    then have "traverse_to_level_zero_loop h k i (pred_node h hdr as k i) =
        Some (if i = 0 then pred_node h hdr as k i else pred_node h hdr as k 0)"
      using Suc.prems pred_node_next_level [of h hdr as k j]
      by (intro Suc.IH) simp_all
    then show ?thesis
      using mv Suc by simp
  qed
qed

lemma traverse_and_collect_predecessors_loop_wf:
  assumes wf: "wf_heap h hdr m c as"
  shows "n \<le> Suc m \<Longrightarrow> n \<le> length ps \<Longrightarrow>
    (n = 0 \<or> cur \<in> set (hdr # level_list h (n - 1) (below h k as))) \<Longrightarrow>
    \<exists>ps'. traverse_and_collect_predecessors_loop h k n cur ps =
        Some (if n = 0 then cur else pred_node h hdr as k 0, ps') \<and>
      length ps' = length ps \<and>
      (\<forall>j<length ps. ps' ! j = (if j < n then Some (pred_node h hdr as k j) else ps ! j))"
proof (induction n arbitrary: cur ps)
  case 0
  then show ?case by simp
next
  case (Suc i)
  then have mv: "move_forward_in_level h cur i k = Some (pred_node h hdr as k i)"
    using wf by (intro move_forward_in_level_wf [where m = m and c = c]) simp_all
  let ?c = "pred_node h hdr as k i"
  let ?ps = "ps[i := Some ?c]"
  have "i = 0 \<or> ?c \<in> set (hdr # level_list h (i - 1) (below h k as))"
    using pred_node_next_level [of h hdr as k "i - 1"] by (cases i) simp_all
  then obtain ps' where
    run: "traverse_and_collect_predecessors_loop h k i ?c ?ps =
        Some (if i = 0 then ?c else pred_node h hdr as k 0, ps')"
    and len: "length ps' = length ?ps"
    and nth: "\<forall>j<length ?ps. ps' ! j = (if j < i then Some (pred_node h hdr as k j) else ?ps ! j)"
    using Suc.IH [of ?ps ?c] Suc.prems by auto
  have "traverse_and_collect_predecessors_loop h k (Suc i) cur ps =
      Some (pred_node h hdr as k 0, ps')"
    using mv run Suc.prems by (cases i) (auto simp: Suc_le_eq)
  moreover have "\<forall>j<length ps. ps' ! j = (if j < Suc i then Some (pred_node h hdr as k j) else ps ! j)"
    using nth Suc.prems by (auto simp: nth_list_update less_Suc_eq)
  ultimately show ?case
    using len by simp
qed

lemma wf_heap_level0: "wf_heap h hdr m c as \<Longrightarrow> linked (nx h 0) (hdr # as) None"
  using level_list_zero [of as h] by (auto simp: wf_heap_def)

lemma below_subset: "set (below h k as) \<subseteq> set as"
  by (metis below_from_key set_append sup_ge1)

lemma from_key_subset: "set (from_key h k as) \<subseteq> set as"
  by (metis below_from_key set_append sup_ge2)

lemma pred_node_zero:
  assumes wf: "wf_heap h hdr m c as"
  shows "pred_node h hdr as k 0 = last (hdr # below h k as)"
proof -
  have "\<forall>a\<in>set (below h k as). 0 < nlen h a"
    using wf below_subset [of h k as] by (auto simp: wf_heap_def)
  then have "level_list h 0 (below h k as) = below h k as"
    by (rule level_list_zero)
  then show ?thesis
    by (simp add: pred_node_def)
qed

lemma nx_pred_node_zero:
  assumes wf: "wf_heap h hdr m c as"
  shows "nx h 0 (pred_node h hdr as k 0) = first_ptr (from_key h k as) None"
proof -
  have "linked (nx h 0) ((hdr # below h k as) @ from_key h k as) None"
    using wf_heap_level0 [OF wf] by (simp add: below_from_key)
  then have "linked (nx h 0) (hdr # below h k as) (first_ptr (from_key h k as) None)"
    by (simp only: linked_append)
  then have "nx h 0 (last (hdr # below h k as)) = first_ptr (from_key h k as) None"
    by (intro linked_last) simp_all
  then show ?thesis
    by (simp only: pred_node_zero [OF wf])
qed

lemma pred_node_zero_level:
  assumes wf: "wf_heap h hdr m c as"
  shows "0 < nlen h (pred_node h hdr as k 0)"
proof -
  have "pred_node h hdr as k 0 \<in> set (hdr # as)"
    using pred_node_in [of h hdr as k 0] level_list_subset [of h 0 "below h k as"]
      below_subset [of h k as] by auto
  then show ?thesis
    using wf by (auto simp: wf_heap_def)
qed

lemma get_node_at_level_zero_wf:
  assumes wf: "wf_heap h hdr m c as"
  shows "get_node_at_level_zero h (Some (pred_node h hdr as k 0)) k = Some (lookup_addr h as k)"
proof -
  let ?p = "pred_node h hdr as k 0"
  have f: "fwd h ?p 0 = Some (first_ptr (from_key h k as) None)"
    using pred_node_zero_level [OF wf] nx_pred_node_zero [OF wf] by (simp add: fwd_nx)
  show ?thesis
  proof (cases "from_key h k as")
    case Nil
    then show ?thesis
      using f by (simp add: get_node_at_level_zero_def lookup_addr_def)
  next
    case (Cons a bs)
    then have "a \<in> set as"
      using from_key_subset [of h k as] by auto
    then have "0 < nlen h a"
      using wf by (simp add: wf_heap_def)
    then obtain n where "h a = Some n"
      by (auto dest: nlen_SomeD)
    then show ?thesis
      using f Cons by (simp add: get_node_at_level_zero_def lookup_addr_def key_of_def)
  qed
qed

lemma get_target_node_eq: "get_target_node h p k = get_node_at_level_zero h p k"
  by (simp add: get_target_node_def get_node_at_level_zero_def)

lemma lookup_addr_Some_iff:
  assumes s: "sorted_wrt (<) (map (key_of h) as)"
  shows "lookup_addr h as k = Some a \<longleftrightarrow> a \<in> set as \<and> key_of h a = k"
proof
  assume "lookup_addr h as k = Some a"
  then show "a \<in> set as \<and> key_of h a = k"
    using from_key_subset [of h k as]
    by (auto simp: lookup_addr_def split: list.splits if_splits)
next
  assume r: "a \<in> set as \<and> key_of h a = k"
  then have "a \<notin> set (below h k as)"
    using below_lt [of a h k as] by auto
  then have mem: "a \<in> set (from_key h k as)"
    using r below_from_key [of h k as] by (metis Un_iff set_append)
  then obtain b bs where fk: "from_key h k as = b # bs"
    by (cases "from_key h k as") auto
  have sf: "sorted_wrt (<) (map (key_of h) (b # bs))"
    using s below_from_key [of h k as] fk
    by (metis map_append sorted_wrt_append)
  have "\<not> key_of h b < k"
    using from_key_ge [OF s, of b k] fk by simp
  moreover have "a \<noteq> b \<Longrightarrow> key_of h b < key_of h a"
    using sf mem fk by auto
  ultimately have "a = b"
    using r by auto
  then show "lookup_addr h as k = Some a"
    using fk r by (simp add: lookup_addr_def)
qed

lemma lookup_addr_None_iff:
  assumes s: "sorted_wrt (<) (map (key_of h) as)"
  shows "lookup_addr h as k = None \<longleftrightarrow> k \<notin> key_of h ` set as"
proof
  assume n: "lookup_addr h as k = None"
  show "k \<notin> key_of h ` set as"
  proof
    assume "k \<in> key_of h ` set as"
    then obtain a where "a \<in> set as \<and> key_of h a = k"
      by auto
    then have "lookup_addr h as k = Some a"
      by (simp only: lookup_addr_Some_iff [OF s])
    with n show False
      by simp
  qed
next
  assume n: "k \<notin> key_of h ` set as"
  show "lookup_addr h as k = None"
  proof (cases "lookup_addr h as k")
    case None
    then show ?thesis .
  next
    case (Some a)
    then have "a \<in> set as \<and> key_of h a = k"
      by (simp only: lookup_addr_Some_iff [OF s])
    with n show ?thesis
      by auto
  qed
qed

lemma map_of_lookup_addr:
  assumes s: "sorted_wrt (<) (map (key_of h) as)"
  shows "map_of (map (\<lambda>a. (key_of h a, val_of h a)) as) k = map_option (val_of h) (lookup_addr h as k)"
proof (cases "lookup_addr h as k")
  case None
  then have "k \<notin> key_of h ` set as"
    using lookup_addr_None_iff [OF s] by simp
  then have "map_of (map (\<lambda>a. (key_of h a, val_of h a)) as) k = None"
    by (auto simp: map_of_eq_None_iff image_iff)
  then show ?thesis
    using None by simp
next
  case (Some a)
  then have a: "a \<in> set as" "key_of h a = k"
    using lookup_addr_Some_iff [OF s] by auto
  have d: "distinct (map fst (map (\<lambda>a. (key_of h a, val_of h a)) as))"
    using s by (simp add: comp_def strict_sorted_iff)
  have "(k, val_of h a) \<in> set (map (\<lambda>a. (key_of h a, val_of h a)) as)"
    using a by auto
  then have "map_of (map (\<lambda>a. (key_of h a, val_of h a)) as) k = Some (val_of h a)"
    using d by (rule map_of_is_SomeI [rotated])
  then show ?thesis
    using Some by simp
qed

section \<open>Writing forward pointers\<close>

lemma set_fwd_eq:
  "set_fwd h a i p =
     (if i < nlen h a
      then Some (h(a \<mapsto> (the (h a))\<lparr>forward := (forward (the (h a)))[i := p]\<rparr>))
      else None)"
  by (auto simp: set_fwd_def nlen_def split: option.splits)

lemma set_fwd_nlen: "set_fwd h a i p = Some h' \<Longrightarrow> nlen h' = nlen h"
  by (rule ext) (auto simp: set_fwd_def nlen_def split: option.splits if_splits)

lemma set_fwd_key_of: "set_fwd h a i p = Some h' \<Longrightarrow> key_of h' = key_of h"
  by (rule ext) (auto simp: set_fwd_def key_of_def split: option.splits if_splits)

lemma set_fwd_val_of: "set_fwd h a i p = Some h' \<Longrightarrow> val_of h' = val_of h"
  by (rule ext) (auto simp: set_fwd_def val_of_def split: option.splits if_splits)

lemma set_fwd_nx:
  "set_fwd h a i p = Some h' \<Longrightarrow> nx h' j = (if j = i then (nx h i)(a := p) else nx h j)"
  by (rule ext)
     (auto simp: set_fwd_def nx_def fwd_def nth_list_update split: option.splits if_splits)

lemma level_list_cong:
  "(\<And>a. a \<in> set as \<Longrightarrow> nlen g a = nlen h a) \<Longrightarrow> level_list g i as = level_list h i as"
  by (simp add: level_list_def cong: filter_cong)

lemma pred_at_SomeI: "i < length ps \<Longrightarrow> ps ! i = Some p \<Longrightarrow> pred_at ps i = Some p"
  by (simp add: pred_at_def)

lemma insert_node_at_level_ok:
  assumes pa: "pred_at ps i = Some p" and lp: "i < nlen h p" and ln: "i < nlen h nd"
    and ne: "p \<noteq> nd"
  shows "\<exists>h'. insert_node_at_level i nd ps h = Some h' \<and> nlen h' = nlen h \<and>
      key_of h' = key_of h \<and> val_of h' = val_of h \<and>
      (\<forall>j. nx h' j = (if j = i then (nx h i)(nd := nx h i p, p := Some nd) else nx h j))"
proof -
  obtain h1 where h1: "set_fwd h nd i (nx h i p) = Some h1"
    using ln by (simp add: set_fwd_eq)
  have n1: "nlen h1 = nlen h"
    using h1 by (rule set_fwd_nlen)
  obtain h2 where h2: "set_fwd h1 p i (Some nd) = Some h2"
    using lp n1 by (simp add: set_fwd_eq)
  have run: "insert_node_at_level i nd ps h = Some h2"
    using pa lp h1 h2 by (simp add: insert_node_at_level_def fwd_nx)
  have "nlen h2 = nlen h"
    using set_fwd_nlen [OF h2] n1 by simp
  moreover have "key_of h2 = key_of h"
    using set_fwd_key_of [OF h2] set_fwd_key_of [OF h1] by simp
  moreover have "val_of h2 = val_of h"
    using set_fwd_val_of [OF h2] set_fwd_val_of [OF h1] by simp
  moreover have "\<forall>j. nx h2 j = (if j = i then (nx h i)(nd := nx h i p, p := Some nd) else nx h j)"
    using set_fwd_nx [OF h2] set_fwd_nx [OF h1] by simp
  ultimately show ?thesis
    using run by blast
qed

lemma disconnect_node_from_level_ok:
  assumes pa: "pred_at ps i = Some p" and lp: "i < nlen h p"
    and ln: "nx h i p = Some nd \<Longrightarrow> i < nlen h nd"
  shows "\<exists>h'. disconnect_node_from_level i nd ps h = Some h' \<and> nlen h' = nlen h \<and>
      key_of h' = key_of h \<and> val_of h' = val_of h \<and>
      (\<forall>j. nx h' j = (if j = i \<and> nx h i p = Some nd then (nx h i)(p := nx h i nd) else nx h j))"
proof (cases "nx h i p = Some nd")
  case True
  obtain h1 where h1: "set_fwd h p i (nx h i nd) = Some h1"
    using lp by (simp add: set_fwd_eq)
  have run: "disconnect_node_from_level i nd ps h = Some h1"
    using pa lp True ln h1 by (simp add: disconnect_node_from_level_def fwd_nx)
  show ?thesis
    using run True set_fwd_nlen [OF h1] set_fwd_key_of [OF h1] set_fwd_val_of [OF h1]
      set_fwd_nx [OF h1] by simp
next
  case False
  then have "disconnect_node_from_level i nd ps h = Some h"
    using pa lp by (simp add: disconnect_node_from_level_def fwd_nx)
  then show ?thesis
    using False by simp
qed

lemma nlen_upd: "nlen (h(a \<mapsto> n)) b = (if b = a then length (forward n) else nlen h b)"
  by (simp add: nlen_def)

lemma key_of_upd: "key_of (h(a \<mapsto> n)) b = (if b = a then key n else key_of h b)"
  by (simp add: key_of_def)

lemma val_of_upd: "val_of (h(a \<mapsto> n)) b = (if b = a then val n else val_of h b)"
  by (simp add: val_of_def)

lemma nx_upd_other: "b \<noteq> a \<Longrightarrow> nx (h(a := x)) j b = nx h j b"
  by (simp add: nx_def fwd_def)

lemma nlen_upd_other: "b \<noteq> a \<Longrightarrow> nlen (h(a := x)) b = nlen h b"
  by (simp add: nlen_def)

lemma key_of_upd_other: "b \<noteq> a \<Longrightarrow> key_of (h(a := x)) b = key_of h b"
  by (simp add: key_of_def)

lemma val_of_upd_other: "b \<noteq> a \<Longrightarrow> val_of (h(a := x)) b = val_of h b"
  by (simp add: val_of_def)

lemma wf_heap_distinct_level:
  "wf_heap h hdr m c as \<Longrightarrow> distinct (hdr # level_list h i as)"
  using level_list_subset [of h i as] by (auto simp: wf_heap_def level_list_def)

section \<open>Splicing a new node in\<close>

definition ins_inv ::
  "('k::linorder, 'v, 'z) heap \<Rightarrow> ('k, 'v, 'z) heap \<Rightarrow> addr \<Rightarrow> addr list \<Rightarrow> addr \<Rightarrow> nat \<Rightarrow>
   ('k, 'v, 'z) heap \<Rightarrow> bool" where
  "ins_inv h0 h hdr as' new i g \<longleftrightarrow>
     nlen g = nlen h0 \<and> key_of g = key_of h0 \<and> val_of g = val_of h0 \<and>
     (\<forall>j<i. linked (nx g j) (hdr # level_list h0 j as') None) \<and>
     (\<forall>j\<ge>i. \<forall>a. a \<noteq> new \<longrightarrow> nx g j a = nx h j a)"

lemma pred_node_props:
  assumes wf: "wf_heap h hdr m c as" and im: "i \<le> m" and new: "new \<notin> set as" "new \<noteq> hdr"
  shows "pred_node h hdr as k i \<noteq> new" and "i < nlen h (pred_node h hdr as k i)"
proof -
  let ?p = "pred_node h hdr as k i"
  have pin: "?p \<in> set (hdr # level_list h i (below h k as))"
    by (rule pred_node_in)
  then have "?p = hdr \<or> (?p \<in> set as \<and> i < nlen h ?p)"
    using below_subset [of h k as] by (auto simp: level_list_def)
  then show "?p \<noteq> new" and "i < nlen h ?p"
    using new wf im by (auto simp: wf_heap_def)
qed

lemma level_split_last:
  "hdr # level_list h i as =
     butlast (hdr # level_list h i (below h k as)) @
       pred_node h hdr as k i # level_list h i (from_key h k as)"
proof -
  have "hdr # level_list h i as =
      (hdr # level_list h i (below h k as)) @ level_list h i (from_key h k as)"
    by (subst level_list_split [of h i as k]) simp
  also have "hdr # level_list h i (below h k as) =
      butlast (hdr # level_list h i (below h k as)) @ [pred_node h hdr as k i]"
    unfolding pred_node_def by (rule append_butlast_last_id [symmetric]) simp
  finally show ?thesis
    by simp
qed

lemma ins_inv_step:
  assumes wf: "wf_heap h hdr m c as"
    and new: "new \<notin> set as" "new \<noteq> hdr"
    and L: "L \<le> m" and iL: "i \<le> L"
    and len0: "nlen h0 = (nlen h)(new := Suc L)"
    and as': "as' = below h k as @ new # from_key h k as"
    and ps: "length ps = Suc m" "ps ! i = Some (pred_node h hdr as k i)"
    and inv: "ins_inv h0 h hdr as' new i g"
  shows "\<exists>g'. insert_node_at_level i new ps g = Some g' \<and> ins_inv h0 h hdr as' new (Suc i) g'"
proof -
  let ?p = "pred_node h hdr as k i"
  let ?us = "butlast (hdr # level_list h i (below h k as))"
  let ?lf = "level_list h i (from_key h k as)"
  have im: "i \<le> m"
    using iL L by simp
  have pn: "?p \<noteq> new" and pl: "i < nlen h ?p"
    using pred_node_props [OF wf im new] by simp_all
  have ng: "nlen g = (nlen h)(new := Suc L)"
    using inv len0 by (simp add: ins_inv_def)
  have "pred_at ps i = Some ?p"
    using ps im by (intro pred_at_SomeI) simp_all
  moreover have "i < nlen g ?p"
    using pl pn ng by simp
  moreover have "i < nlen g new"
    using iL ng by simp
  ultimately obtain g' where run: "insert_node_at_level i new ps g = Some g'"
    and shape: "nlen g' = nlen g" "key_of g' = key_of g" "val_of g' = val_of g"
    and nxg: "\<forall>j. nx g' j = (if j = i then (nx g i)(new := nx g i ?p, ?p := Some new) else nx g j)"
    using insert_node_at_level_ok [of ps i ?p g new] pn by blast
  have whole: "hdr # level_list h i as = ?us @ ?p # ?lf"
    by (rule level_split_last)
  have old: "new \<notin> set (?us @ ?p # ?lf)"
    using new level_list_subset [of h i as] unfolding whole [symmetric] by auto
  have "linked (nx h i) (?us @ ?p # ?lf) None"
    using wf im unfolding whole [symmetric] by (simp add: wf_heap_def)
  then have "linked (nx g i) (?us @ ?p # ?lf) None"
    using inv old by (subst linked_cong [of _ "nx g i" "nx h i"]) (auto simp: ins_inv_def)
  moreover have "distinct (?us @ ?p # ?lf)"
    using wf_heap_distinct_level [OF wf, of i] unfolding whole .
  ultimately have spl: "linked ((nx g i)(new := nx g i ?p, ?p := Some new)) (?us @ ?p # new # ?lf) None"
    using old by (intro linked_splice_in)
  have below_new: "new \<notin> set (below h k as)" and from_new: "new \<notin> set (from_key h k as)"
    using new below_subset [of h k as] from_key_subset [of h k as] by auto
  have "level_list h0 i (below h k as) = level_list h i (below h k as)"
    using below_new len0 by (intro level_list_cong) auto
  moreover have "level_list h0 i (from_key h k as) = level_list h i (from_key h k as)"
    using from_new len0 by (intro level_list_cong) auto
  ultimately have "level_list h0 i as' = level_list h i (below h k as) @ new # ?lf"
    using iL len0 by (simp add: as' level_list_def)
  then have "hdr # level_list h0 i as' = ?us @ ?p # new # ?lf"
    using whole by (simp add: level_list_split [of h i as k])
  then have here: "linked (nx g' i) (hdr # level_list h0 i as') None"
    using spl nxg by simp
  have "\<forall>j<Suc i. linked (nx g' j) (hdr # level_list h0 j as') None"
  proof (intro allI impI)
    fix j assume "j < Suc i"
    then consider "j < i" | "j = i"
      by linarith
    then show "linked (nx g' j) (hdr # level_list h0 j as') None"
    proof cases
      case 1
      then show ?thesis
        using inv nxg by (simp add: ins_inv_def)
    next
      case 2
      then show ?thesis
        using here by simp
    qed
  qed
  moreover have "\<forall>j\<ge>Suc i. \<forall>a. a \<noteq> new \<longrightarrow> nx g' j a = nx h j a"
    using inv nxg by (auto simp: ins_inv_def)
  ultimately have "ins_inv h0 h hdr as' new (Suc i) g'"
    using inv shape by (simp add: ins_inv_def)
  with run show ?thesis
    by blast
qed

lemma insert_levels_inv:
  assumes wf: "wf_heap h hdr m c as"
    and new: "new \<notin> set as" "new \<noteq> hdr"
    and L: "L \<le> m"
    and len0: "nlen h0 = (nlen h)(new := Suc L)"
    and as': "as' = below h k as @ new # from_key h k as"
    and ps: "length ps = Suc m" "\<forall>j\<le>L. ps ! j = Some (pred_node h hdr as k j)"
  shows "i + n = Suc L \<Longrightarrow> ins_inv h0 h hdr as' new i g \<Longrightarrow>
    \<exists>g'. insert_levels n i new ps g = Some g' \<and> ins_inv h0 h hdr as' new (Suc L) g'"
proof (induction n arbitrary: i g)
  case 0
  then show ?case by simp
next
  case (Suc n)
  then have iL: "i \<le> L"
    by simp
  then have "ps ! i = Some (pred_node h hdr as k i)"
    using ps by simp
  then obtain g1 where s: "insert_node_at_level i new ps g = Some g1"
    and inv1: "ins_inv h0 h hdr as' new (Suc i) g1"
    using ins_inv_step [OF wf new L iL len0 as' ps(1) _ Suc.prems(2)] by blast
  obtain g' where "insert_levels n (Suc i) new ps g1 = Some g'"
    and "ins_inv h0 h hdr as' new (Suc L) g'"
    using Suc.IH [of "Suc i" g1] Suc.prems(1) inv1 by auto
  then show ?case
    using s by simp
qed

lemma sorted_insert_key:
  assumes s: "sorted_wrt (<) (map (key_of h) as)"
    and absent: "k \<notin> key_of h ` set as"
    and same: "\<And>a. a \<in> set as \<Longrightarrow> key_of g a = key_of h a"
    and knew: "key_of g new = k"
  shows "sorted_wrt (<) (map (key_of g) (below h k as @ new # from_key h k as))"
proof -
  let ?b = "below h k as" and ?f = "from_key h k as"
  have "sorted_wrt (<) (map (key_of h) (?b @ ?f))"
    using s by (simp only: below_from_key)
  then have sb: "sorted_wrt (<) (map (key_of h) ?b)" and sf: "sorted_wrt (<) (map (key_of h) ?f)"
    and cross: "\<forall>x\<in>set ?b. \<forall>y\<in>set ?f. key_of h x < key_of h y"
    by (auto simp: sorted_wrt_append)
  have mb: "map (key_of g) ?b = map (key_of h) ?b"
    using same below_subset [of h k as] by (intro map_cong) auto
  have mf: "map (key_of g) ?f = map (key_of h) ?f"
    using same from_key_subset [of h k as] by (intro map_cong) auto
  have lt: "\<forall>x\<in>set ?b. key_of h x < k"
    by (auto dest: below_lt)
  have gt: "\<forall>y\<in>set ?f. k < key_of h y"
  proof
    fix y assume y: "y \<in> set ?f"
    then have "\<not> key_of h y < k"
      by (rule from_key_ge [OF s])
    moreover have "key_of h y \<noteq> k"
      using y absent from_key_subset [of h k as] by auto
    ultimately show "k < key_of h y"
      by simp
  qed
  show ?thesis
    using sb sf cross lt gt by (simp add: mb mf knew sorted_wrt_append)
qed

lemma ins_inv_final:
  assumes wf: "wf_heap h hdr m c as"
    and absent: "lookup_addr h as k = None"
    and new: "new \<notin> set as" "new \<noteq> hdr"
    and L: "L \<le> m"
    and len0: "nlen h0 = (nlen h)(new := Suc L)"
    and key0: "key_of h0 = (key_of h)(new := k)"
    and as': "as' = below h k as @ new # from_key h k as"
    and inv: "ins_inv h0 h hdr as' new (Suc L) g"
  shows "wf_heap g hdr m (max c L) as'"
proof -
  have ng: "nlen g = (nlen h)(new := Suc L)" and kg: "key_of g = (key_of h)(new := k)"
    using inv len0 key0 by (simp_all add: ins_inv_def)
  have set_as': "set as' = insert new (set as)"
    using below_from_key [of h k as] unfolding as'
    by (metis Un_insert_right list.simps(15) set_append)
  have dist: "distinct as'"
  proof -
    have "distinct (below h k as @ from_key h k as)"
      using wf by (simp add: below_from_key wf_heap_def)
    moreover have "new \<notin> set (below h k as)" "new \<notin> set (from_key h k as)"
      using new below_subset [of h k as] from_key_subset [of h k as] by auto
    ultimately show ?thesis
      unfolding as' by auto
  qed
  have lens: "\<forall>a\<in>set as'. 0 < nlen g a \<and> nlen g a \<le> Suc (max c L)"
    using wf ng by (auto simp: set_as' wf_heap_def)
  have srt: "sorted_wrt (<) (map (key_of g) as')"
    unfolding as'
  proof (rule sorted_insert_key)
    show "sorted_wrt (<) (map (key_of h) as)"
      using wf by (simp add: wf_heap_def)
    show "k \<notin> key_of h ` set as"
      using absent wf lookup_addr_None_iff [of h as k] by (simp add: wf_heap_def)
    show "\<And>a. a \<in> set as \<Longrightarrow> key_of g a = key_of h a"
      using new kg by auto
    show "key_of g new = k"
      using kg by simp
  qed
  have links: "\<forall>i\<le>m. linked (nx g i) (hdr # level_list g i as') None"
  proof (intro allI impI)
    fix i assume im: "i \<le> m"
    have ll: "level_list g i as' = level_list h0 i as'"
      using inv by (intro level_list_cong) (simp add: ins_inv_def)
    show "linked (nx g i) (hdr # level_list g i as') None"
    proof (cases "i \<le> L")
      case True
      then show ?thesis
        using inv ll by (simp add: ins_inv_def)
    next
      case False
      have "level_list h0 i as' = filter (\<lambda>a. i < nlen h0 a) (below h k as @ from_key h k as)"
        using False len0 by (simp add: level_list_def as')
      also have "\<dots> = filter (\<lambda>a. i < nlen h a) as"
        unfolding below_from_key using new len0 by (intro filter_cong) auto
      finally have l0: "level_list h0 i as' = level_list h i as"
        by (simp add: level_list_def)
      have "linked (nx h i) (hdr # level_list h i as) None"
        using wf im by (simp add: wf_heap_def)
      moreover have "new \<notin> set (hdr # level_list h i as)"
        using new level_list_subset [of h i as] by auto
      moreover have agree: "\<And>a. a \<noteq> new \<Longrightarrow> nx g i a = nx h i a"
        using inv False by (simp add: ins_inv_def not_le Suc_le_eq)
      moreover have "linked (nx g i) (hdr # level_list h i as) None =
          linked (nx h i) (hdr # level_list h i as) None"
      proof (rule linked_cong)
        fix a assume "a \<in> set (hdr # level_list h i as)"
        then have "a \<noteq> new"
          using new level_list_subset [of h i as] by auto
        then show "nx g i a = nx h i a"
          by (rule agree)
      qed
      ultimately have "linked (nx g i) (hdr # level_list h i as) None"
        by simp
      then show ?thesis
        using ll l0 by simp
    qed
  qed
  show ?thesis
    unfolding wf_heap_def
    using wf new L ng dist lens srt links by (simp add: set_as' wf_heap_def)
qed

lemma insert_levels_wf:
  assumes wf: "wf_heap h hdr m c as"
    and absent: "lookup_addr h as k = None"
    and new: "new \<notin> set as" "new \<noteq> hdr"
    and L: "L \<le> m"
    and h0: "h0 = h(new \<mapsto> n)" "length (forward n) = Suc L" "key n = k"
    and ps: "length ps = Suc m" "\<forall>j\<le>L. ps ! j = Some (pred_node h hdr as k j)"
  shows "\<exists>g. insert_levels (Suc L) 0 new ps h0 = Some g \<and>
      wf_heap g hdr m (max c L) (below h k as @ new # from_key h k as) \<and>
      nlen g = (nlen h)(new := Suc L) \<and> key_of g = (key_of h)(new := k) \<and>
      val_of g = (val_of h)(new := val n)"
proof -
  let ?as' = "below h k as @ new # from_key h k as"
  have len0: "nlen h0 = (nlen h)(new := Suc L)"
    using h0 by (auto simp: nlen_upd)
  have key0: "key_of h0 = (key_of h)(new := k)"
    using h0 by (auto simp: key_of_upd)
  have val0: "val_of h0 = (val_of h)(new := val n)"
    using h0 by (auto simp: val_of_upd)
  have "ins_inv h0 h hdr ?as' new 0 h0"
    using h0 by (simp add: ins_inv_def nx_upd_other)
  then obtain g where run: "insert_levels (Suc L) 0 new ps h0 = Some g"
    and inv: "ins_inv h0 h hdr ?as' new (Suc L) g"
    using insert_levels_inv [OF wf new L len0 refl ps, of 0 "Suc L" h0] by auto
  have "wf_heap g hdr m (max c L) ?as'"
    using wf absent new L len0 key0 refl inv by (rule ins_inv_final)
  then show ?thesis
    using run inv len0 key0 val0 by (simp add: ins_inv_def)
qed

section \<open>Unlinking a node\<close>

definition del_inv ::
  "('k::linorder, 'v, 'z) heap \<Rightarrow> addr \<Rightarrow> addr list \<Rightarrow> nat \<Rightarrow> ('k, 'v, 'z) heap \<Rightarrow> bool" where
  "del_inv h hdr as' i g \<longleftrightarrow>
     nlen g = nlen h \<and> key_of g = key_of h \<and> val_of g = val_of h \<and>
     (\<forall>j<i. linked (nx g j) (hdr # level_list h j as') None) \<and>
     (\<forall>j\<ge>i. nx g j = nx h j)"

lemma lookup_addr_SomeD:
  "lookup_addr h as k = Some t \<Longrightarrow> \<exists>rest. from_key h k as = t # rest \<and> key_of h t = k"
  by (auto simp: lookup_addr_def split: list.splits if_splits)

lemma first_ptr_mem: "first_ptr xs None = Some t \<Longrightarrow> t \<in> set xs"
  by (cases xs) auto

lemma del_inv_step:
  assumes wf: "wf_heap h hdr m c as"
    and fk: "from_key h k as = t # rest"
    and ic: "i \<le> c"
    and as': "as' = below h k as @ rest"
    and ps: "length ps = Suc m" "ps ! i = Some (pred_node h hdr as k i)"
    and inv: "del_inv h hdr as' i g"
  shows "\<exists>g'. disconnect_node_from_level i t ps g = Some g' \<and> del_inv h hdr as' (Suc i) g'"
proof -
  let ?p = "pred_node h hdr as k i"
  let ?us = "butlast (hdr # level_list h i (below h k as))"
  let ?lr = "level_list h i rest"
  have im: "i \<le> m"
    using ic wf by (simp add: wf_heap_def)
  have t_as: "t \<in> set as"
    using fk from_key_subset [of h k as] by auto
  have "distinct (below h k as @ t # rest)"
    using wf fk below_from_key [of h k as] by (simp add: wf_heap_def)
  then have t_rest: "t \<notin> set rest"
    by simp
  have pl: "i < nlen h ?p"
    using pred_node_in [of h hdr as k i] wf im below_subset [of h k as]
    by (auto simp: level_list_def wf_heap_def)
  have ng: "nlen g = nlen h" and nxi: "nx g i = nx h i"
    using inv by (simp_all add: del_inv_def)
  have pa: "pred_at ps i = Some ?p"
    using ps im by (intro pred_at_SomeI) simp_all
  have whole: "hdr # level_list h i as = ?us @ ?p # level_list h i (t # rest)"
    using level_split_last [of hdr h i as k] fk by simp
  have lk: "linked (nx h i) (hdr # level_list h i as) None"
    using wf im by (simp add: wf_heap_def)
  have tgt: "hdr # level_list h i as' = ?us @ ?p # ?lr"
  proof -
    have "hdr # level_list h i as' = (hdr # level_list h i (below h k as)) @ ?lr"
      by (simp add: as' level_list_def)
    also have "hdr # level_list h i (below h k as) = ?us @ [?p]"
      unfolding pred_node_def by (rule append_butlast_last_id [symmetric]) simp
    finally show ?thesis
      by simp
  qed
  show ?thesis
  proof (cases "i < nlen h t")
    case True
    then have w2: "hdr # level_list h i as = ?us @ ?p # t # ?lr"
      using whole by (simp add: level_list_def)
    then have l2: "linked (nx h i) (?us @ ?p # t # ?lr) None"
      using lk by simp
    then have pt: "nx h i ?p = Some t"
      by (simp add: linked_append)
    obtain g' where run: "disconnect_node_from_level i t ps g = Some g'"
      and shape: "nlen g' = nlen g" "key_of g' = key_of g" "val_of g' = val_of g"
      and nxg: "\<forall>j. nx g' j = (if j = i \<and> nx g i ?p = Some t then (nx g i)(?p := nx g i t) else nx g j)"
      using disconnect_node_from_level_ok [of ps i ?p g t] pa pl ng True by auto
    have "distinct (?us @ ?p # t # ?lr)"
      using wf_heap_distinct_level [OF wf, of i] unfolding w2 .
    with l2 have "linked ((nx h i)(?p := nx h i t)) (?us @ ?p # ?lr) None"
      by (rule linked_splice_out)
    then have here: "linked (nx g' i) (hdr # level_list h i as') None"
      using nxg nxi pt tgt by simp
    have "\<forall>j<Suc i. linked (nx g' j) (hdr # level_list h j as') None"
      using inv nxg here by (auto simp: del_inv_def less_Suc_eq)
    moreover have "\<forall>j\<ge>Suc i. nx g' j = nx h j"
      using inv nxg by (auto simp: del_inv_def)
    ultimately have "del_inv h hdr as' (Suc i) g'"
      using inv shape by (simp add: del_inv_def)
    with run show ?thesis
      by blast
  next
    case False
    then have w2: "hdr # level_list h i as = ?us @ ?p # ?lr"
      using whole by (simp add: level_list_def)
    then have l2: "linked (nx h i) (?us @ ?p # ?lr) None"
      using lk by simp
    then have "nx h i ?p = first_ptr ?lr None"
      by (simp add: linked_append)
    then have pt: "nx h i ?p \<noteq> Some t"
      using t_rest first_ptr_mem [of ?lr t] level_list_subset [of h i rest] by auto
    obtain g' where run: "disconnect_node_from_level i t ps g = Some g'"
      and shape: "nlen g' = nlen g" "key_of g' = key_of g" "val_of g' = val_of g"
      and nxg: "\<forall>j. nx g' j = (if j = i \<and> nx g i ?p = Some t then (nx g i)(?p := nx g i t) else nx g j)"
      using disconnect_node_from_level_ok [of ps i ?p g t] pa pl ng pt nxi by auto
    have here: "linked (nx g' i) (hdr # level_list h i as') None"
      using nxg nxi pt tgt l2 by simp
    have "\<forall>j<Suc i. linked (nx g' j) (hdr # level_list h j as') None"
      using inv nxg here by (auto simp: del_inv_def less_Suc_eq)
    moreover have "\<forall>j\<ge>Suc i. nx g' j = nx h j"
      using inv nxg by (auto simp: del_inv_def)
    ultimately have "del_inv h hdr as' (Suc i) g'"
      using inv shape by (simp add: del_inv_def)
    with run show ?thesis
      by blast
  qed
qed

lemma disconnect_levels_inv:
  assumes wf: "wf_heap h hdr m c as"
    and fk: "from_key h k as = t # rest"
    and as': "as' = below h k as @ rest"
    and ps: "length ps = Suc m" "\<forall>j\<le>c. ps ! j = Some (pred_node h hdr as k j)"
  shows "i + n = Suc c \<Longrightarrow> del_inv h hdr as' i g \<Longrightarrow>
    \<exists>g'. disconnect_levels n i t ps g = Some g' \<and> del_inv h hdr as' (Suc c) g'"
proof (induction n arbitrary: i g)
  case 0
  then show ?case by simp
next
  case (Suc n)
  then have ic: "i \<le> c"
    by simp
  then have "ps ! i = Some (pred_node h hdr as k i)"
    using ps by simp
  then obtain g1 where s: "disconnect_node_from_level i t ps g = Some g1"
    and inv1: "del_inv h hdr as' (Suc i) g1"
    using del_inv_step [OF wf fk ic as' ps(1) _ Suc.prems(2)] by blast
  obtain g' where "disconnect_levels n (Suc i) t ps g1 = Some g'"
    and "del_inv h hdr as' (Suc c) g'"
    using Suc.IH [of "Suc i" g1] Suc.prems(1) inv1 by auto
  then show ?case
    using s by simp
qed

lemma disconnect_levels_wf:
  assumes wf: "wf_heap h hdr m c as"
    and found: "lookup_addr h as k = Some t"
    and ps: "length ps = Suc m" "\<forall>j\<le>c. ps ! j = Some (pred_node h hdr as k j)"
  shows "\<exists>g. disconnect_levels (Suc c) 0 t ps h = Some g \<and>
      nlen g = nlen h \<and> key_of g = key_of h \<and> val_of g = val_of h \<and>
      wf_heap (g(t := None)) hdr m c (below h k as @ tl (from_key h k as))"
proof -
  obtain rest where fk: "from_key h k as = t # rest"
    using lookup_addr_SomeD [OF found] by blast
  let ?as' = "below h k as @ rest"
  have as_eq: "as = below h k as @ t # rest"
    using below_from_key [of h k as] fk by simp
  have "del_inv h hdr ?as' 0 h"
    by (simp add: del_inv_def)
  then obtain g where run: "disconnect_levels (Suc c) 0 t ps h = Some g"
    and inv: "del_inv h hdr ?as' (Suc c) g"
    using disconnect_levels_inv [OF wf fk refl ps, of 0 "Suc c" h] by auto
  have shape: "nlen g = nlen h" "key_of g = key_of h" "val_of g = val_of h"
    using inv by (simp_all add: del_inv_def)
  let ?g = "g(t := None)"
  have dist: "distinct (below h k as @ t # rest)" and hdr_as: "hdr \<notin> set as"
    using wf as_eq by (simp_all add: wf_heap_def)
  have t_out: "t \<notin> set ?as'"
    using dist by simp
  have "t \<in> set as"
    using fk from_key_subset [of h k as] by auto
  then have t_hdr: "t \<noteq> hdr"
    using hdr_as by auto
  have sub: "set ?as' \<subseteq> set as"
    using as_eq by (metis Un_iff list.set_intros(2) set_append subsetI)
  have lens: "\<forall>a\<in>set ?as'. 0 < nlen ?g a \<and> nlen ?g a \<le> Suc c"
  proof
    fix a assume a: "a \<in> set ?as'"
    then have "a \<noteq> t" "a \<in> set as"
      using t_out sub by auto
    then show "0 < nlen ?g a \<and> nlen ?g a \<le> Suc c"
      using wf shape by (simp add: nlen_upd_other wf_heap_def)
  qed
  have srt: "sorted_wrt (<) (map (key_of ?g) ?as')"
  proof -
    have meq: "map (key_of ?g) ?as' = map (key_of h) ?as'"
    proof (rule map_cong [OF refl])
      fix a assume "a \<in> set ?as'"
      then have "a \<noteq> t"
        using t_out by auto
      then show "key_of ?g a = key_of h a"
        using shape by (simp add: key_of_upd_other)
    qed
    have "sorted_wrt (<) (map (key_of h) (below h k as @ t # rest))"
      using wf as_eq by (simp add: wf_heap_def)
    then have "sorted_wrt (<) (map (key_of h) ?as')"
      by (auto simp: sorted_wrt_append)
    then show ?thesis
      by (simp only: meq)
  qed
  have links: "\<forall>i\<le>m. linked (nx ?g i) (hdr # level_list ?g i ?as') None"
  proof (intro allI impI)
    fix i assume im: "i \<le> m"
    have ll: "level_list ?g i ?as' = level_list h i ?as'"
    proof (rule level_list_cong)
      fix a assume "a \<in> set ?as'"
      then have "a \<noteq> t"
        using t_out by auto
      then show "nlen ?g a = nlen h a"
        using shape by (simp add: nlen_upd_other)
    qed
    have base: "linked (nx g i) (hdr # level_list h i ?as') None"
    proof (cases "i \<le> c")
      case True
      then show ?thesis
        using inv by (simp add: del_inv_def)
    next
      case False
      then have all: "\<forall>a\<in>set as. nlen h a \<le> i"
        using wf by (auto simp: wf_heap_def)
      then have "\<forall>a\<in>set ?as'. nlen h a \<le> i"
        using sub by blast
      then have "level_list h i ?as' = []"
        by (rule level_list_above)
      moreover have "level_list h i as = []"
        using all by (rule level_list_above)
      moreover have "linked (nx h i) (hdr # level_list h i as) None"
        using wf im by (simp add: wf_heap_def)
      moreover have "nx g i = nx h i"
        using inv False by (simp add: del_inv_def not_le Suc_le_eq)
      ultimately show ?thesis
        by simp
    qed
    have "linked (nx ?g i) (hdr # level_list h i ?as') None =
        linked (nx g i) (hdr # level_list h i ?as') None"
    proof (rule linked_cong)
      fix a assume "a \<in> set (hdr # level_list h i ?as')"
      then have "a \<noteq> t"
        using t_out t_hdr level_list_subset [of h i ?as'] by auto
      then show "nx ?g i a = nx g i a"
        by (rule nx_upd_other)
    qed
    then show "linked (nx ?g i) (hdr # level_list ?g i ?as') None"
      using base ll by simp
  qed
  have "wf_heap ?g hdr m c ?as'"
    unfolding wf_heap_def
    using wf t_hdr shape dist sub lens srt links
    by (auto simp: nlen_upd_other wf_heap_def)
  then show ?thesis
    using run shape fk by simp
qed

lemma shrink_level_ok:
  "c < nlen h hdr \<Longrightarrow>
   \<exists>c'. shrink_level h hdr c = Some c' \<and> c' \<le> c \<and> (c' = 0 \<or> nx h c' hdr \<noteq> None) \<and>
     (\<forall>j. c' < j \<and> j \<le> c \<longrightarrow> nx h j hdr = None)"
proof (induction c)
  case 0
  then show ?case by simp
next
  case (Suc c)
  show ?case
  proof (cases "nx h (Suc c) hdr")
    case None
    obtain c' where "shrink_level h hdr c = Some c'" "c' \<le> c" "c' = 0 \<or> nx h c' hdr \<noteq> None"
      "\<forall>j. c' < j \<and> j \<le> c \<longrightarrow> nx h j hdr = None"
      using Suc by auto
    then show ?thesis
      using None Suc.prems by (auto simp: fwd_nx le_Suc_eq)
  next
    case (Some a)
    then show ?thesis
      using Suc.prems by (auto simp: fwd_nx)
  qed
qed

lemma wf_heap_shrink:
  assumes wf: "wf_heap h hdr m c as" and le: "c' \<le> c"
    and empty: "\<forall>j. c' < j \<and> j \<le> c \<longrightarrow> nx h j hdr = None"
  shows "wf_heap h hdr m c' as"
proof (cases "c' = c")
  case True
  then show ?thesis
    using wf by simp
next
  case False
  then have j: "c' < Suc c'" "Suc c' \<le> c" "Suc c' \<le> m"
    using le wf by (auto simp: wf_heap_def)
  then have "nx h (Suc c') hdr = None"
    using empty by blast
  moreover have "linked (nx h (Suc c')) (hdr # level_list h (Suc c') as) None"
    using wf j by (simp add: wf_heap_def)
  ultimately have "level_list h (Suc c') as = []"
    by (cases "level_list h (Suc c') as") simp_all
  then have "\<forall>a\<in>set as. nlen h a \<le> Suc c'"
    by (auto simp: level_list_def filter_empty_conv not_less)
  then show ?thesis
    using wf le by (auto simp: wf_heap_def)
qed

section \<open>The random level generator\<close>

text \<open>The length of the initial run of successes among the first \<open>n\<close> coin flips of \<open>g\<close>:
  the number of leading successes, capped at \<open>n\<close>.\<close>

definition success_run :: "(nat \<Rightarrow> bool) \<Rightarrow> nat \<Rightarrow> nat" where
  "success_run g n = length (takeWhile (\<lambda>b. b) (map g [0..<n]))"

lemma success_run_0: "success_run g 0 = 0"
  by (simp add: success_run_def)

lemma success_run_Suc:
  "success_run g (Suc n) = (if g 0 then Suc (success_run (\<lambda>i. g (Suc i)) n) else 0)"
proof -
  have "map g [0..<Suc n] = g 0 # map (\<lambda>i. g (Suc i)) [0..<n]"
    by (simp add: upt_conv_Cons map_Suc_upt [symmetric] del: upt_Suc)
  then show ?thesis
    by (simp add: success_run_def)
qed

lemma success_run_le: "success_run g n \<le> n"
  unfolding success_run_def
  by (metis length_map length_takeWhile_le length_upt diff_zero)

lemma generate_random_level_loop_run:
  "level \<le> m \<Longrightarrow>
   unat (fst (generate_random_level_loop m g level)) =
     unat level + success_run g (unat m - unat level)"
proof (induction m g level rule: generate_random_level_loop.induct)
  case (1 m g level)
  show ?case
  proof (cases "g 0 \<and> level < m")
    case True
    then have lt: "unat level < unat m"
      by (simp add: word_less_nat_alt)
    moreover have "unat m < 2 ^ LENGTH(8)"
      by (rule unsigned_less)
    ultimately have up: "unat (level + 1) = Suc (unat level)"
      using unat_add_lem [of level 1] by simp
    then have le: "level + 1 \<le> m"
      using lt by (simp add: word_le_nat_alt)
    have split: "unat m - unat level = Suc (unat m - unat (level + 1))"
      using lt up by simp
    show ?thesis
      using "1.IH" [OF True le] True up
      by (subst generate_random_level_loop.simps) (simp add: split success_run_Suc)
  next
    case False
    then consider "\<not> g 0" | "g 0" "level = m"
      using "1.prems" by auto
    then show ?thesis
    proof cases
      case 1
      then show ?thesis
        by (subst generate_random_level_loop.simps)
           (cases "unat m - unat level"; simp add: success_run_0 success_run_Suc)
    next
      case 2
      then show ?thesis
        by (subst generate_random_level_loop.simps) (simp add: success_run_0)
    qed
  qed
qed

section \<open>The loops of \<^verbatim>\<open>SkipList\<close> with 8-bit counters\<close>

text \<open>While the level stays below 255 the \<^verbatim>\<open>uint8_t\<close> counter does not wrap, and the
  loops are the loops over natural numbers.\<close>

lemma unat_succ_le:
  "(i::8 word) \<le> level \<Longrightarrow> unat level < 255 \<Longrightarrow> unat (i + 1) = Suc (unat i)"
proof -
  assume "i \<le> level" and b: "unat level < 255"
  then have "unat i \<le> unat level"
    by (simp add: word_le_nat_alt)
  then have "unat i + unat (1::8 word) < 2 ^ LENGTH(8)"
    using b by simp
  then show ?thesis
    using unat_add_lem [of i 1] by simp
qed

lemma insert_node_at_all_levels_loop_eq:
  "unat level < 255 \<Longrightarrow> unat i \<le> Suc (unat level) \<Longrightarrow> n = Suc (unat level) - unat i \<Longrightarrow>
   insert_node_at_all_levels_loop i level nd ps (h :: ('k, 'v, 'z) heap) =
     insert_levels n (unat i) nd ps h"
proof (induction n arbitrary: i h)
  case 0
  then have "\<not> i \<le> level"
    by (simp add: word_le_nat_alt)
  then show ?case
    by (subst insert_node_at_all_levels_loop.simps) simp
next
  case (Suc n)
  then have le: "i \<le> level"
    by (simp add: word_le_nat_alt)
  have up: "unat (i + 1) = Suc (unat i)"
    using le Suc.prems(1) by (rule unat_succ_le)
  have ih: "insert_node_at_all_levels_loop (i + 1) level nd ps h' =
      insert_levels n (unat (i + 1)) nd ps h'" for h' :: "('k, 'v, 'z) heap"
    using Suc.prems up by (intro Suc.IH) simp_all
  show ?case
    using le by (subst insert_node_at_all_levels_loop.simps) (simp add: ih up split: option.splits)
qed

lemma disconnect_node_from_levels_loop_eq:
  "unat level < 255 \<Longrightarrow> unat i \<le> Suc (unat level) \<Longrightarrow> n = Suc (unat level) - unat i \<Longrightarrow>
   disconnect_node_from_levels_loop i level nd ps (h :: ('k, 'v, 'z) heap) =
     disconnect_levels n (unat i) nd ps h"
proof (induction n arbitrary: i h)
  case 0
  then have "\<not> i \<le> level"
    by (simp add: word_le_nat_alt)
  then show ?case
    by (subst disconnect_node_from_levels_loop.simps) simp
next
  case (Suc n)
  then have le: "i \<le> level"
    by (simp add: word_le_nat_alt)
  have up: "unat (i + 1) = Suc (unat i)"
    using le Suc.prems(1) by (rule unat_succ_le)
  have ih: "disconnect_node_from_levels_loop (i + 1) level nd ps h' =
      disconnect_levels n (unat (i + 1)) nd ps h'" for h' :: "('k, 'v, 'z) heap"
    using Suc.prems up by (intro Suc.IH) simp_all
  show ?case
    using le by (subst disconnect_node_from_levels_loop.simps) (simp add: ih up split: option.splits)
qed

lemma adjust_max_level_for_insertion_loop_eq:
  "unat level < 255 \<Longrightarrow> unat i \<le> Suc (unat level) \<Longrightarrow> n = Suc (unat level) - unat i \<Longrightarrow>
   adjust_max_level_for_insertion_loop i level hdr ps = header_levels n (unat i) hdr ps"
proof (induction n arbitrary: i ps)
  case 0
  then have "\<not> i \<le> level"
    by (simp add: word_le_nat_alt)
  then show ?case
    by (subst adjust_max_level_for_insertion_loop.simps) simp
next
  case (Suc n)
  then have le: "i \<le> level"
    by (simp add: word_le_nat_alt)
  have up: "unat (i + 1) = Suc (unat i)"
    using le Suc.prems(1) by (rule unat_succ_le)
  have ih: "adjust_max_level_for_insertion_loop (i + 1) level hdr ps' =
      header_levels n (unat (i + 1)) hdr ps'" for ps'
    using Suc.prems up by (intro Suc.IH) simp_all
  show ?case
    using le by (subst adjust_max_level_for_insertion_loop.simps) (simp add: ih up)
qed

lemma adjust_max_level_loop_eq:
  "n = unat c \<Longrightarrow> adjust_max_level_loop h hdr c = map_option of_nat (shrink_level h hdr n)"
proof (induction n arbitrary: c)
  case 0
  then have "c = 0"
    by (simp add: unat_eq_0)
  then show ?case
    by (subst adjust_max_level_loop.simps) simp
next
  case (Suc n)
  then have cn: "unat c = Suc n"
    by simp
  then have pos: "0 < c"
    by (metis unat_gt_0 zero_less_Suc word_gt_0)
  then have down: "unat (c - 1) = n"
    using cn by (simp add: unat_minus_one)
  have ih: "adjust_max_level_loop h hdr (c - 1) = map_option of_nat (shrink_level h hdr n)"
    using down by (intro Suc.IH) simp
  have "of_nat (unat c) = c"
    by simp
  then have oc: "of_nat (Suc n) = c"
    by (simp only: cn)
  have unfold: "adjust_max_level_loop h hdr c =
      (case fwd h hdr (Suc n) of
         None \<Rightarrow> None
       | Some None \<Rightarrow> adjust_max_level_loop h hdr (c - 1)
       | Some (Some a) \<Rightarrow> Some c)"
    using pos by (subst adjust_max_level_loop.simps) (simp add: cn)
  show ?case
  proof (cases "fwd h hdr (Suc n)")
    case None
    then show ?thesis
      by (simp add: unfold)
  next
    case (Some p)
    then show ?thesis
      by (cases p) (simp_all add: unfold ih oc del: of_nat_Suc)
  qed
qed

lemma header_levels_ok:
  "i + n \<le> length ps \<Longrightarrow>
   \<exists>ps'. header_levels n i hdr ps = Some ps' \<and> length ps' = length ps \<and>
     (\<forall>j<length ps. ps' ! j = (if i \<le> j \<and> j < i + n then Some hdr else ps ! j))"
proof (induction n arbitrary: i ps)
  case 0
  then show ?case by auto
next
  case (Suc n)
  let ?ps = "ps[i := Some hdr]"
  obtain ps' where run: "header_levels n (Suc i) hdr ?ps = Some ps'"
    and len: "length ps' = length ?ps"
    and nth: "\<forall>j<length ?ps. ps' ! j = (if Suc i \<le> j \<and> j < Suc i + n then Some hdr else ?ps ! j)"
    using Suc.IH [of "Suc i" ?ps] Suc.prems by auto
  have "header_levels (Suc n) i hdr ps = Some ps'"
    using run Suc.prems by simp
  moreover have "\<forall>j<length ps. ps' ! j = (if i \<le> j \<and> j < i + Suc n then Some hdr else ps ! j)"
    using nth by (auto simp: nth_list_update)
  ultimately show ?case
    using len by simp
qed

section \<open>The state of a \<^verbatim>\<open>SkipList\<close> and its invariant\<close>

text \<open>
  \<open>level_chain s i\<close> follows the level-\<open>i\<close> pointers from the header (for at most
  \<open>next_addr s\<close> steps: no chain of distinct live nodes is longer); \<open>nodes s\<close> is the
  level-0 chain, \<open>entries s\<close> its key-value pairs and \<open>lookup s k\<close> the value stored
  under \<open>k\<close>, if any.
\<close>

fun chain :: "nat \<Rightarrow> (addr \<Rightarrow> ptr) \<Rightarrow> ptr \<Rightarrow> addr list" where
  "chain 0 f p = []"
| "chain (Suc n) f p = (case p of None \<Rightarrow> [] | Some a \<Rightarrow> a # chain n f (f a))"

definition level_chain :: "('k, 'v) skip_list \<Rightarrow> nat \<Rightarrow> addr list" where
  "level_chain s i = chain (next_addr s) (nx (heap s) i) (nx (heap s) i (header s))"

definition nodes :: "('k, 'v) skip_list \<Rightarrow> addr list" where
  "nodes s = level_chain s 0"

definition entries :: "('k, 'v) skip_list \<Rightarrow> ('k \<times> 'v) list" where
  "entries s = map (\<lambda>a. (key_of (heap s) a, val_of (heap s) a)) (nodes s)"

definition lookup :: "('k, 'v) skip_list \<Rightarrow> 'k \<Rightarrow> 'v option" where
  "lookup s k = map_of (entries s) k"

definition sl_rel :: "('k::linorder, 'v) skip_list \<Rightarrow> addr list \<Rightarrow> bool" where
  "sl_rel s as \<longleftrightarrow>
     wf_heap (heap s) (header s) (unat (max_level s)) (unat (current_max_level s)) as \<and>
     element_count s = length as \<and>
     header s < next_addr s \<and> (\<forall>a\<in>set as. a < next_addr s) \<and>
     unat (current_max_level s) < 255"

definition sl_inv :: "('k::linorder, 'v) skip_list \<Rightarrow> bool" where
  "sl_inv s \<longleftrightarrow> sl_rel s (nodes s)"

lemma chain_None [simp]: "chain n f None = []"
  by (cases n) simp_all

lemma chain_linked: "linked f (a # as) None \<Longrightarrow> length as \<le> n \<Longrightarrow> chain n f (f a) = as"
proof (induction as arbitrary: a n)
  case Nil
  then show ?case by simp
next
  case (Cons b bs)
  then obtain n' where n: "n = Suc n'"
    by (cases n) auto
  have "chain n' f (f b) = bs"
    using Cons.prems n by (intro Cons.IH) simp_all
  then show ?case
    using Cons.prems n by simp
qed

lemma length_le_bound: "distinct as \<Longrightarrow> \<forall>a\<in>set as. a < n \<Longrightarrow> length as \<le> (n::nat)"
proof -
  assume d: "distinct as" and b: "\<forall>a\<in>set as. a < n"
  then have "set as \<subseteq> {..<n}"
    by auto
  then have "card (set as) \<le> card {..<n}"
    by (intro card_mono) simp_all
  then show ?thesis
    using d by (simp add: distinct_card)
qed

lemma sl_rel_level_chain:
  assumes r: "sl_rel s as" and im: "i \<le> unat (max_level s)"
  shows "level_chain s i = level_list (heap s) i as"
proof -
  have wf: "wf_heap (heap s) (header s) (unat (max_level s)) (unat (current_max_level s)) as"
    using r by (simp add: sl_rel_def)
  have "distinct (level_list (heap s) i as)"
    using wf by (simp add: wf_heap_def level_list_def)
  moreover have "\<forall>a\<in>set (level_list (heap s) i as). a < next_addr s"
    using r level_list_subset [of "heap s" i as] by (auto simp: sl_rel_def)
  ultimately have "length (level_list (heap s) i as) \<le> next_addr s"
    by (rule length_le_bound)
  moreover have "linked (nx (heap s) i) (header s # level_list (heap s) i as) None"
    using wf im by (simp add: wf_heap_def)
  ultimately show ?thesis
    unfolding level_chain_def by (intro chain_linked)
qed

lemma sl_rel_nodes: "sl_rel s as \<Longrightarrow> nodes s = as"
proof -
  assume r: "sl_rel s as"
  then have "\<forall>a\<in>set as. 0 < nlen (heap s) a"
    by (simp add: sl_rel_def wf_heap_def)
  then have "level_list (heap s) 0 as = as"
    by (rule level_list_zero)
  then show ?thesis
    using sl_rel_level_chain [OF r, of 0] by (simp add: nodes_def)
qed

lemma sl_invI: "sl_rel s as \<Longrightarrow> sl_inv s"
  using sl_rel_nodes [of s as] by (simp add: sl_inv_def)

lemma sl_inv_wf:
  "sl_inv s \<Longrightarrow>
   wf_heap (heap s) (header s) (unat (max_level s)) (unat (current_max_level s)) (nodes s)"
  by (simp add: sl_inv_def sl_rel_def)

lemma lookup_lookup_addr:
  "sl_inv s \<Longrightarrow> lookup s k = map_option (val_of (heap s)) (lookup_addr (heap s) (nodes s) k)"
  unfolding lookup_def entries_def
  by (rule map_of_lookup_addr) (simp add: sl_inv_def sl_rel_def wf_heap_def)

lemma traverse_to_level_zero_inv:
  assumes inv: "sl_inv s"
  shows "traverse_to_level_zero s k = Some (lookup_addr (heap s) (nodes s) k)"
proof -
  note wf = sl_inv_wf [OF inv]
  have "unat (current_max_level s) \<le> unat (max_level s)"
    using wf by (simp add: wf_heap_def)
  then have "traverse_to_level_zero_loop (heap s) k (Suc (unat (current_max_level s))) (header s) =
      Some (pred_node (heap s) (header s) (nodes s) k 0)"
    using traverse_to_level_zero_loop_wf [OF wf, of "Suc (unat (current_max_level s))" "header s" k]
    by simp
  then show ?thesis
    using get_node_at_level_zero_wf [OF wf, of k]
    by (simp add: traverse_to_level_zero_def get_target_node_eq)
qed

lemma lookup_addr_allocated:
  assumes inv: "sl_inv s" and f: "lookup_addr (heap s) (nodes s) k = Some a"
  shows "\<exists>n. heap s a = Some n \<and> key n = k \<and> a \<in> set (nodes s)"
proof -
  note wf = sl_inv_wf [OF inv]
  have "a \<in> set (nodes s) \<and> key_of (heap s) a = k"
    using f wf lookup_addr_Some_iff [of "heap s" "nodes s" k a] by (simp add: wf_heap_def)
  moreover from this have "0 < nlen (heap s) a"
    using wf by (simp add: wf_heap_def)
  then obtain n where "heap s a = Some n"
    by (auto dest: nlen_SomeD)
  ultimately show ?thesis
    by (auto simp: key_of_def)
qed

lemma get_inv: "sl_inv s \<Longrightarrow> get s k = Some (lookup s k)"
proof -
  assume inv: "sl_inv s"
  show ?thesis
  proof (cases "lookup_addr (heap s) (nodes s) k")
    case None
    then show ?thesis
      using inv by (simp add: get_def find_node_def traverse_to_level_zero_inv lookup_lookup_addr)
  next
    case (Some a)
    then obtain n where "heap s a = Some n"
      using lookup_addr_allocated [OF inv] by blast
    then show ?thesis
      using inv Some
      by (simp add: get_def find_node_def traverse_to_level_zero_inv lookup_lookup_addr val_of_def)
  qed
qed

lemma contains_inv: "sl_inv s \<Longrightarrow> contains s k = Some (lookup s k \<noteq> None)"
  by (simp add: contains_def find_node_def traverse_to_level_zero_inv lookup_lookup_addr)

lemma find_predecessors_inv:
  assumes inv: "sl_inv s"
  shows "\<exists>ps. find_predecessors s k = Some ps \<and> length ps = Suc (unat (max_level s)) \<and>
    (\<forall>j\<le>unat (current_max_level s). ps ! j = Some (pred_node (heap s) (header s) (nodes s) k j))"
proof -
  note wf = sl_inv_wf [OF inv]
  have cm: "unat (current_max_level s) \<le> unat (max_level s)"
    using wf by (simp add: wf_heap_def)
  let ?ps0 = "replicate (unat (max_level s) + 1) (None :: ptr)"
  obtain ps where run: "traverse_and_collect_predecessors_loop (heap s) k
        (Suc (unat (current_max_level s))) (header s) ?ps0 =
      Some (pred_node (heap s) (header s) (nodes s) k 0, ps)"
    and len: "length ps = length ?ps0"
    and nth: "\<forall>j<length ?ps0. ps ! j =
      (if j < Suc (unat (current_max_level s))
       then Some (pred_node (heap s) (header s) (nodes s) k j) else ?ps0 ! j)"
    using traverse_and_collect_predecessors_loop_wf [OF wf,
        of "Suc (unat (current_max_level s))" ?ps0 "header s" k] cm
    by auto
  have "find_predecessors s k = Some ps"
    using run by (simp add: find_predecessors_def traverse_and_collect_predecessors_def)
  moreover have "\<forall>j\<le>unat (current_max_level s).
      ps ! j = Some (pred_node (heap s) (header s) (nodes s) k j)"
    using nth cm by auto
  ultimately show ?thesis
    using len by simp
qed

lemma option_eq_by_Some: "(\<And>v. x = Some v \<longleftrightarrow> y = Some v) \<Longrightarrow> x = y"
  by (cases x; cases y) auto

lemma lookup_Some_iff:
  assumes inv: "sl_inv s"
  shows "lookup s k = Some v \<longleftrightarrow>
    (\<exists>a\<in>set (nodes s). key_of (heap s) a = k \<and> val_of (heap s) a = v)"
proof -
  have s: "sorted_wrt (<) (map (key_of (heap s)) (nodes s))"
    using sl_inv_wf [OF inv] by (simp add: wf_heap_def)
  show ?thesis
  proof
    assume "lookup s k = Some v"
    then obtain a where "lookup_addr (heap s) (nodes s) k = Some a" "val_of (heap s) a = v"
      using inv by (auto simp: lookup_lookup_addr)
    then show "\<exists>a\<in>set (nodes s). key_of (heap s) a = k \<and> val_of (heap s) a = v"
      using lookup_addr_Some_iff [OF s, of k a] by auto
  next
    assume "\<exists>a\<in>set (nodes s). key_of (heap s) a = k \<and> val_of (heap s) a = v"
    then obtain a where "a \<in> set (nodes s) \<and> key_of (heap s) a = k" "val_of (heap s) a = v"
      by auto
    then have "lookup_addr (heap s) (nodes s) k = Some a" "val_of (heap s) a = v"
      using lookup_addr_Some_iff [OF s, of k a] by auto
    then show "lookup s k = Some v"
      using inv by (simp add: lookup_lookup_addr)
  qed
qed

lemma lookup_None_iff:
  assumes inv: "sl_inv s"
  shows "lookup s k = None \<longleftrightarrow> lookup_addr (heap s) (nodes s) k = None"
  using inv by (simp add: lookup_lookup_addr)

lemma keys_unique:
  fixes h :: "('k::linorder, 'v, 'z) heap"
  assumes s: "sorted_wrt (<) (map (key_of h) as)"
    and a: "a \<in> set as" and b: "b \<in> set as" and k: "key_of h a = key_of h b"
  shows "a = b"
proof -
  have "lookup_addr h as (key_of h b) = Some a" "lookup_addr h as (key_of h b) = Some b"
    using lookup_addr_Some_iff [OF s] a b k by auto
  then show ?thesis
    by simp
qed

lemma wf_heap_cong:
  "nlen g = nlen h \<Longrightarrow> key_of g = key_of h \<Longrightarrow> (\<And>i. nx g i = nx h i) \<Longrightarrow>
   wf_heap g hdr m c as = wf_heap h hdr m c as"
  by (simp add: wf_heap_def level_list_def)

lemma SkipList_sl_rel: "sl_rel (SkipList m coins (k0::'k::linorder) v0) []"
proof -
  let ?h = "(\<lambda>a. None)(0 \<mapsto> \<lparr>key = k0, val = v0, forward = replicate (unat m + 1) None\<rparr>)"
  have "nx ?h i 0 = None" for i
    by (simp add: nx_def fwd_def del: replicate.simps)
  moreover have "nlen ?h 0 = Suc (unat m)"
    by (simp add: nlen_def)
  ultimately have "wf_heap ?h 0 (unat m) 0 []"
    by (simp add: wf_heap_def level_list_def)
  then show ?thesis
    by (simp add: sl_rel_def SkipList_def create_node_def)
qed

lemma SkipList_inv: "sl_inv (SkipList m coins (k0::'k::linorder) v0)"
  using SkipList_sl_rel by (rule sl_invI)

lemma SkipList_nodes: "nodes (SkipList m coins (k0::'k::linorder) v0) = []"
  using SkipList_sl_rel by (rule sl_rel_nodes)

lemma put_update:
  assumes inv: "sl_inv s" and found: "lookup_addr (heap s) (nodes s) k = Some t"
  shows "\<exists>n. heap s t = Some n \<and> put s k v = Some (s\<lparr>heap := (heap s)(t \<mapsto> n\<lparr>val := v\<rparr>)\<rparr>) \<and>
      sl_inv (s\<lparr>heap := (heap s)(t \<mapsto> n\<lparr>val := v\<rparr>)\<rparr>) \<and>
      nodes (s\<lparr>heap := (heap s)(t \<mapsto> n\<lparr>val := v\<rparr>)\<rparr>) = nodes s \<and>
      nlen ((heap s)(t \<mapsto> n\<lparr>val := v\<rparr>)) = nlen (heap s) \<and>
      lookup (s\<lparr>heap := (heap s)(t \<mapsto> n\<lparr>val := v\<rparr>)\<rparr>) = (lookup s)(k \<mapsto> v)"
proof -
  note wf = sl_inv_wf [OF inv]
  have srt: "sorted_wrt (<) (map (key_of (heap s)) (nodes s))"
    using wf by (simp add: wf_heap_def)
  obtain n where n: "heap s t = Some n" "key n = k" and t_in: "t \<in> set (nodes s)"
    using lookup_addr_allocated [OF inv found] by blast
  let ?h = "(heap s)(t \<mapsto> n\<lparr>val := v\<rparr>)"
  let ?s = "s\<lparr>heap := ?h\<rparr>"
  obtain ps where ps: "find_predecessors s k = Some ps"
    "length ps = Suc (unat (max_level s))"
    "\<forall>j\<le>unat (current_max_level s). ps ! j = Some (pred_node (heap s) (header s) (nodes s) k j)"
    using find_predecessors_inv [OF inv] by blast
  have "get_node_at_level_zero (heap s) (ps ! 0) k = Some (Some t)"
    using ps get_node_at_level_zero_wf [OF wf, of k] found by simp
  then have run: "put s k v = Some ?s"
    using ps n by (simp add: put_def update_existing_node_def)
  have nl: "nlen ?h = nlen (heap s)"
    using n by (auto simp: nlen_def)
  have ky: "key_of ?h = key_of (heap s)"
    using n by (auto simp: key_of_def)
  have nxs: "nx ?h i = nx (heap s) i" for i
    using n by (auto simp: nx_def fwd_def)
  have vl: "val_of ?h = (val_of (heap s))(t := v)"
    using n by (auto simp: val_of_def)
  have "sl_rel s (nodes s)"
    using inv by (simp add: sl_inv_def)
  then have rel: "sl_rel ?s (nodes s)"
    using wf_heap_cong [OF nl ky nxs] by (simp add: sl_rel_def)
  then have inv': "sl_inv ?s" and nodes': "nodes ?s = nodes s"
    by (rule sl_invI, rule sl_rel_nodes)
  have "lookup ?s k2 = ((lookup s)(k \<mapsto> v)) k2" for k2
  proof (rule option_eq_by_Some)
    fix w
    have "lookup ?s k2 = Some w \<longleftrightarrow>
        (\<exists>a\<in>set (nodes s). key_of (heap s) a = k2 \<and> ((val_of (heap s))(t := v)) a = w)"
      using lookup_Some_iff [OF inv', of k2 w] by (simp add: nodes' ky vl)
    also have "\<dots> \<longleftrightarrow> ((lookup s)(k \<mapsto> v)) k2 = Some w"
    proof (cases "k2 = k")
      case True
      have kt: "key_of (heap s) t = k"
        using n by (simp add: key_of_def)
      have uniq: "a \<in> set (nodes s) \<Longrightarrow> key_of (heap s) a = k \<Longrightarrow> a = t" for a
        using keys_unique [OF srt _ t_in, of a] kt by simp
      show ?thesis
      proof
        assume "\<exists>a\<in>set (nodes s). key_of (heap s) a = k2 \<and> ((val_of (heap s))(t := v)) a = w"
        then obtain a where a: "a \<in> set (nodes s)" "key_of (heap s) a = k2"
          "((val_of (heap s))(t := v)) a = w"
          by blast
        then have "a = t"
          using uniq True by simp
        then show "((lookup s)(k \<mapsto> v)) k2 = Some w"
          using a True by simp
      next
        assume "((lookup s)(k \<mapsto> v)) k2 = Some w"
        then have "v = w"
          using True by simp
        then show "\<exists>a\<in>set (nodes s). key_of (heap s) a = k2 \<and> ((val_of (heap s))(t := v)) a = w"
          using t_in kt True by (intro bexI [of _ t]) simp_all
      qed
    next
      case False
      have other: "a \<in> set (nodes s) \<Longrightarrow> key_of (heap s) a = k2 \<Longrightarrow> a \<noteq> t" for a
        using False n by (auto simp: key_of_def)
      have "(\<exists>a\<in>set (nodes s). key_of (heap s) a = k2 \<and> ((val_of (heap s))(t := v)) a = w) \<longleftrightarrow>
          (\<exists>a\<in>set (nodes s). key_of (heap s) a = k2 \<and> val_of (heap s) a = w)"
        using other by (intro bex_cong refl conj_cong) simp_all
      also have "\<dots> \<longleftrightarrow> lookup s k2 = Some w"
        by (rule lookup_Some_iff [OF inv, symmetric])
      finally show ?thesis
        using False by simp
    qed
    finally show "lookup ?s k2 = Some w \<longleftrightarrow> ((lookup s)(k \<mapsto> v)) k2 = Some w" .
  qed
  then have "lookup ?s = (lookup s)(k \<mapsto> v)"
    by (rule ext)
  then show ?thesis
    using n run inv' nodes' nl by blast
qed

section \<open>\<^verbatim>\<open>put\<close> of a new key\<close>

lemma adjust_max_level_for_insertion_ok:
  fixes s :: "('k::linorder, 'v) skip_list"
  assumes wf: "wf_heap (heap s) (header s) (unat (max_level s)) (unat (current_max_level s)) as"
    and L255: "unat lv < 255"
    and lv: "lv \<le> max_level s"
    and ps: "length ps = Suc (unat (max_level s))"
      "\<forall>j\<le>unat (current_max_level s). ps ! j = Some (pred_node (heap s) (header s) as k j)"
  shows "\<exists>ps'. adjust_max_level_for_insertion s lv ps =
        Some (ps', s\<lparr>current_max_level := max (current_max_level s) lv\<rparr>) \<and>
      length ps' = Suc (unat (max_level s)) \<and>
      (\<forall>j\<le>unat lv. ps' ! j = Some (pred_node (heap s) (header s) as k j))"
proof (cases "current_max_level s < lv")
  case False
  then have le: "lv \<le> current_max_level s"
    by simp
  then have "max (current_max_level s) lv = current_max_level s"
    by (rule max_absorb1)
  then have "adjust_max_level_for_insertion s lv ps =
      Some (ps, s\<lparr>current_max_level := max (current_max_level s) lv\<rparr>)"
    using False by (simp add: adjust_max_level_for_insertion_def)
  moreover have "\<forall>j\<le>unat lv. ps ! j = Some (pred_node (heap s) (header s) as k j)"
    using ps le by (auto simp: word_le_nat_alt)
  ultimately show ?thesis
    using ps by simp
next
  case True
  let ?c = "unat (current_max_level s)" and ?L = "unat lv" and ?m = "unat (max_level s)"
  have cL: "?c < ?L" and Lm: "?L \<le> ?m"
    using True lv by (simp_all add: word_less_nat_alt word_le_nat_alt)
  have up: "unat (current_max_level s + 1) = Suc ?c"
    using unat_succ_le [of "current_max_level s" lv] True L255 by simp
  have "adjust_max_level_for_insertion_loop (current_max_level s + 1) lv (header s) ps =
      header_levels (Suc ?L - Suc ?c) (Suc ?c) (header s) ps"
    using adjust_max_level_for_insertion_loop_eq [of lv "current_max_level s + 1"
        "Suc ?L - Suc ?c" "header s" ps] L255 cL up by simp
  moreover obtain ps' where "header_levels (Suc ?L - Suc ?c) (Suc ?c) (header s) ps = Some ps'"
    and len: "length ps' = length ps"
    and nth: "\<forall>j<length ps. ps' ! j =
      (if Suc ?c \<le> j \<and> j < Suc ?c + (Suc ?L - Suc ?c) then Some (header s) else ps ! j)"
    using header_levels_ok [of "Suc ?c" "Suc ?L - Suc ?c" ps "header s"] ps cL Lm by auto
  moreover have "max (current_max_level s) lv = lv"
    using True by (intro max_absorb2 less_imp_le)
  ultimately have run: "adjust_max_level_for_insertion s lv ps =
      Some (ps', s\<lparr>current_max_level := max (current_max_level s) lv\<rparr>)"
    using True by (simp add: adjust_max_level_for_insertion_def)
  have "\<forall>j\<le>?L. ps' ! j = Some (pred_node (heap s) (header s) as k j)"
  proof (intro allI impI)
    fix j assume jL: "j \<le> ?L"
    show "ps' ! j = Some (pred_node (heap s) (header s) as k j)"
    proof (cases "j \<le> ?c")
      case True
      then show ?thesis
        using nth ps jL Lm by simp
    next
      case False
      then have "pred_node (heap s) (header s) as k j = header s"
        using wf by (intro pred_node_above [where m = ?m and c = ?c]) simp_all
      then show ?thesis
        using nth ps jL Lm cL False by simp
    qed
  qed
  then show ?thesis
    using run len ps by simp
qed

lemma generate_random_level_props:
  "generate_random_level s = (lv, s') \<Longrightarrow> lv \<le> max_level s \<and> s' = s\<lparr>gen := gen s'\<rparr>"
proof -
  assume g: "generate_random_level s = (lv, s')"
  have "unat (fst (generate_random_level_loop (max_level s) (gen s) 0)) \<le> unat (max_level s)"
    using generate_random_level_loop_run [of 0 "max_level s" "gen s"]
      success_run_le [of "gen s" "unat (max_level s)"] by simp
  then show ?thesis
    using g by (auto simp: generate_random_level_def Let_def split_def word_le_nat_alt)
qed

lemma put_insert:
  fixes s :: "('k::linorder, 'v) skip_list"
  assumes inv: "sl_inv s" and draw: "unat (fst (generate_random_level s)) < 255"
    and absent: "lookup_addr (heap s) (nodes s) k = None"
  shows "\<exists>s'. put s k v = Some s' \<and> sl_inv s' \<and> lookup s' = (lookup s)(k \<mapsto> v) \<and>
      element_count s' = Suc (element_count s) \<and> max_level s' = max_level s \<and>
      header s' = header s \<and> next_addr s' = Suc (next_addr s) \<and>
      current_max_level s' = max (current_max_level s) (fst (generate_random_level s)) \<and>
      gen s' = gen (snd (generate_random_level s)) \<and>
      nodes s' = below (heap s) k (nodes s) @ next_addr s # from_key (heap s) k (nodes s) \<and>
      nlen (heap s') = (nlen (heap s))(next_addr s := Suc (unat (fst (generate_random_level s))))"
proof -
  let ?h = "heap s" and ?hdr = "header s" and ?as = "nodes s" and ?new = "next_addr s"
  let ?m = "unat (max_level s)" and ?c = "unat (current_max_level s)"
  note wf = sl_inv_wf [OF inv]
  have rel: "sl_rel s ?as"
    using inv by (simp add: sl_inv_def)
  obtain lv s1 where g: "generate_random_level s = (lv, s1)"
    by (cases "generate_random_level s")
  then have lv: "lv \<le> max_level s" and s1: "s1 = s\<lparr>gen := gen s1\<rparr>"
    using generate_random_level_props [OF g] by simp_all
  let ?L = "unat lv"
  have Lm: "?L \<le> ?m"
    using lv by (simp add: word_le_nat_alt)
  have L255: "?L < 255"
    using draw g by simp
  have c255: "?c < 255"
    using rel by (simp add: sl_rel_def)
  obtain ps where ps: "find_predecessors s k = Some ps" "length ps = Suc ?m"
    "\<forall>j\<le>?c. ps ! j = Some (pred_node ?h ?hdr ?as k j)"
    using find_predecessors_inv [OF inv] by blast
  have target: "get_node_at_level_zero ?h (ps ! 0) k = Some None"
    using ps get_node_at_level_zero_wf [OF wf, of k] absent by simp
  let ?s1 = "s\<lparr>gen := gen s1\<rparr>"
  obtain ps' where adj: "adjust_max_level_for_insertion ?s1 lv ps =
      Some (ps', ?s1\<lparr>current_max_level := max (current_max_level s) lv\<rparr>)"
    and len': "length ps' = Suc ?m"
    and nth': "\<forall>j\<le>?L. ps' ! j = Some (pred_node ?h ?hdr ?as k j)"
    using adjust_max_level_for_insertion_ok [of ?s1 ?as lv ps k] wf L255 lv ps by auto
  let ?n = "\<lparr>key = k, val = v, forward = replicate (?L + 1) None\<rparr>"
  let ?hnew = "?h(?new \<mapsto> ?n)"
  have new_as: "?new \<notin> set ?as" and new_hdr: "?new \<noteq> ?hdr"
    using rel by (auto simp: sl_rel_def)
  have "\<exists>g. insert_levels (Suc ?L) 0 ?new ps' ?hnew = Some g \<and>
      wf_heap g ?hdr ?m (max ?c ?L) (below ?h k ?as @ ?new # from_key ?h k ?as) \<and>
      nlen g = (nlen ?h)(?new := Suc ?L) \<and> key_of g = (key_of ?h)(?new := k) \<and>
      val_of g = (val_of ?h)(?new := val ?n)"
    by (rule insert_levels_wf [OF wf absent new_as new_hdr Lm refl _ _ len' nth']) simp_all
  then obtain g' where ins: "insert_levels (Suc ?L) 0 ?new ps' ?hnew = Some g'"
    and wf': "wf_heap g' ?hdr ?m (max ?c ?L) (below ?h k ?as @ ?new # from_key ?h k ?as)"
    and shape: "nlen g' = (nlen ?h)(?new := Suc ?L)" "key_of g' = (key_of ?h)(?new := k)"
      "val_of g' = (val_of ?h)(?new := v)"
    by auto
  have loop: "insert_node_at_all_levels_loop 0 lv ?new ps' ?hnew = Some g'"
    using insert_node_at_all_levels_loop_eq [of lv 0 "Suc ?L" ?new ps' ?hnew] ins L255 by simp
  let ?s' = "s\<lparr>gen := gen s1, current_max_level := max (current_max_level s) lv,
      heap := g', next_addr := Suc ?new, element_count := element_count s + 1\<rparr>"
  have g1: "generate_random_level s = (lv, ?s1)"
    using g s1 by simp
  have "insert_new_node s k v ps = Some ?s'"
    unfolding insert_new_node_def g1
    using adj loop by (simp add: create_node_def insert_node_at_all_levels_def)
  then have run: "put s k v = Some ?s'"
    using ps target by (simp add: put_def)
  let ?as' = "below ?h k ?as @ ?new # from_key ?h k ?as"
  have set_as': "set ?as' = insert ?new (set ?as)"
    using below_from_key [of ?h k ?as] by (metis Un_insert_right list.simps(15) set_append)
  have len_as': "length ?as' = Suc (length ?as)"
    using below_from_key [of ?h k ?as] by (metis length_append length_Cons add_Suc_right)
  have umax: "unat (max (current_max_level s) lv) = max ?c ?L"
    by (simp add: max_def word_le_nat_alt)
  have bound: "\<forall>a\<in>set ?as'. a < Suc ?new"
    unfolding set_as' using rel by (auto simp: sl_rel_def)
  have cnt: "element_count s + 1 = length ?as'"
    unfolding len_as' using rel by (simp add: sl_rel_def)
  have hb: "?hdr < Suc ?new"
    using rel by (simp add: sl_rel_def)
  have rel': "sl_rel ?s' ?as'"
    unfolding sl_rel_def
  proof (intro conjI)
    show "wf_heap (heap ?s') (header ?s') (unat (max_level ?s')) (unat (current_max_level ?s')) ?as'"
      using wf' umax by simp
    show "element_count ?s' = length ?as'"
      using cnt by simp
    show "header ?s' < next_addr ?s'"
      using hb by simp
    show "\<forall>a\<in>set ?as'. a < next_addr ?s'"
      using bound by simp
    show "unat (current_max_level ?s') < 255"
      using umax L255 c255 by simp
  qed
  then have inv': "sl_inv ?s'" and nodes': "nodes ?s' = ?as'"
    by (rule sl_invI, rule sl_rel_nodes)
  have srt: "sorted_wrt (<) (map (key_of ?h) ?as)"
    using wf by (simp add: wf_heap_def)
  have hp: "heap ?s' = g'"
    by simp
  have no_key: "a \<in> set ?as \<Longrightarrow> key_of ?h a \<noteq> k" for a
    using absent lookup_addr_None_iff [OF srt, of k] by auto
  have "lookup ?s' k2 = ((lookup s)(k \<mapsto> v)) k2" for k2
  proof (rule option_eq_by_Some)
    fix w
    have "lookup ?s' k2 = Some w \<longleftrightarrow>
        (\<exists>a\<in>set (nodes ?s'). key_of (heap ?s') a = k2 \<and> val_of (heap ?s') a = w)"
      by (rule lookup_Some_iff [OF inv'])
    also have "\<dots> \<longleftrightarrow>
        (\<exists>a\<in>insert ?new (set ?as). ((key_of ?h)(?new := k)) a = k2 \<and> ((val_of ?h)(?new := v)) a = w)"
      unfolding nodes' set_as' hp shape ..
    also have "\<dots> \<longleftrightarrow> ((lookup s)(k \<mapsto> v)) k2 = Some w"
    proof (cases "k2 = k")
      case True
      show ?thesis
      proof
        assume "\<exists>a\<in>insert ?new (set ?as). ((key_of ?h)(?new := k)) a = k2 \<and>
            ((val_of ?h)(?new := v)) a = w"
        then obtain a where a: "a \<in> insert ?new (set ?as)" "((key_of ?h)(?new := k)) a = k2"
          "((val_of ?h)(?new := v)) a = w"
          by blast
        then have "a = ?new"
          using no_key [of a] True by (cases "a = ?new") auto
        then show "((lookup s)(k \<mapsto> v)) k2 = Some w"
          using a True by simp
      next
        assume "((lookup s)(k \<mapsto> v)) k2 = Some w"
        then have "v = w"
          using True by simp
        then show "\<exists>a\<in>insert ?new (set ?as). ((key_of ?h)(?new := k)) a = k2 \<and>
            ((val_of ?h)(?new := v)) a = w"
          using True by (intro bexI [of _ ?new]) simp_all
      qed
    next
      case False
      have "(\<exists>a\<in>insert ?new (set ?as). ((key_of ?h)(?new := k)) a = k2 \<and>
            ((val_of ?h)(?new := v)) a = w) \<longleftrightarrow>
          (\<exists>a\<in>set ?as. key_of ?h a = k2 \<and> val_of ?h a = w)"
      proof
        assume "\<exists>a\<in>insert ?new (set ?as). ((key_of ?h)(?new := k)) a = k2 \<and>
            ((val_of ?h)(?new := v)) a = w"
        then obtain a where a: "a \<in> insert ?new (set ?as)" "((key_of ?h)(?new := k)) a = k2"
          "((val_of ?h)(?new := v)) a = w"
          by blast
        then have "a \<noteq> ?new"
          using False by auto
        then have "a \<in> set ?as" "key_of ?h a = k2" "val_of ?h a = w"
          using a by simp_all
        then show "\<exists>a\<in>set ?as. key_of ?h a = k2 \<and> val_of ?h a = w"
          by blast
      next
        assume "\<exists>a\<in>set ?as. key_of ?h a = k2 \<and> val_of ?h a = w"
        then obtain a where a: "a \<in> set ?as" "key_of ?h a = k2" "val_of ?h a = w"
          by blast
        then have "a \<noteq> ?new"
          using new_as by auto
        then have "a \<in> insert ?new (set ?as)" "((key_of ?h)(?new := k)) a = k2"
          "((val_of ?h)(?new := v)) a = w"
          using a by simp_all
        then show "\<exists>a\<in>insert ?new (set ?as). ((key_of ?h)(?new := k)) a = k2 \<and>
            ((val_of ?h)(?new := v)) a = w"
          by blast
      qed
      also have "\<dots> \<longleftrightarrow> lookup s k2 = Some w"
        by (rule lookup_Some_iff [OF inv, symmetric])
      finally show ?thesis
        using False by simp
    qed
    finally show "lookup ?s' k2 = Some w \<longleftrightarrow> ((lookup s)(k \<mapsto> v)) k2 = Some w" .
  qed
  then have look: "lookup ?s' = (lookup s)(k \<mapsto> v)"
    by (rule ext)
  have "element_count ?s' = Suc (element_count s)" "max_level ?s' = max_level s"
    "header ?s' = header s" "next_addr ?s' = Suc (next_addr s)"
    "current_max_level ?s' = max (current_max_level s) (fst (generate_random_level s))"
    "gen ?s' = gen (snd (generate_random_level s))"
    "nlen (heap ?s') = (nlen ?h)(?new := Suc (unat (fst (generate_random_level s))))"
    using g shape by simp_all
  with run inv' look nodes' show ?thesis
    by blast
qed

section \<open>\<^verbatim>\<open>remove\<close>\<close>

lemma remove_absent:
  assumes inv: "sl_inv s" and absent: "lookup_addr (heap s) (nodes s) k = None"
  shows "remove s k = Some (False, s)"
proof -
  note wf = sl_inv_wf [OF inv]
  obtain ps where ps: "find_predecessors s k = Some ps"
    "\<forall>j\<le>unat (current_max_level s). ps ! j = Some (pred_node (heap s) (header s) (nodes s) k j)"
    using find_predecessors_inv [OF inv] by blast
  have "get_node_at_level_zero (heap s) (ps ! 0) k = Some None"
    using ps get_node_at_level_zero_wf [OF wf, of k] absent by simp
  then show ?thesis
    using ps by (simp add: remove_def)
qed

lemma remove_found:
  fixes s :: "('k::linorder, 'v) skip_list"
  assumes inv: "sl_inv s"
    and found: "lookup_addr (heap s) (nodes s) k = Some t"
  shows "\<exists>s'. remove s k = Some (True, s') \<and> sl_inv s' \<and> lookup s' = (lookup s)(k := None) \<and>
      0 < element_count s \<and> element_count s' = element_count s - 1 \<and>
      max_level s' = max_level s \<and> header s' = header s \<and> next_addr s' = next_addr s \<and>
      gen s' = gen s \<and>
      nodes s' = below (heap s) k (nodes s) @ tl (from_key (heap s) k (nodes s)) \<and>
      heap s' t = None \<and>
      current_max_level s' \<le> current_max_level s \<and>
      (current_max_level s' = 0 \<or>
        nx (heap s') (unat (current_max_level s')) (header s') \<noteq> None) \<and>
      (\<forall>j. unat (current_max_level s') < j \<and> j \<le> unat (current_max_level s) \<longrightarrow>
        nx (heap s') j (header s') = None) \<and>
      adjust_max_level_loop (heap s') (header s') (current_max_level s) =
        Some (current_max_level s')"
proof -
  let ?h = "heap s" and ?hdr = "header s" and ?as = "nodes s"
  let ?m = "unat (max_level s)" and ?c = "unat (current_max_level s)"
  let ?as' = "below ?h k ?as @ tl (from_key ?h k ?as)"
  note wf = sl_inv_wf [OF inv]
  have rel: "sl_rel s ?as"
    using inv by (simp add: sl_inv_def)
  have cm: "?c \<le> ?m"
    using wf by (simp add: wf_heap_def)
  have c255: "?c < 255"
    using rel by (simp add: sl_rel_def)
  have srt: "sorted_wrt (<) (map (key_of ?h) ?as)"
    using wf by (simp add: wf_heap_def)
  have t_in: "t \<in> set ?as" and t_key: "key_of ?h t = k"
    using found lookup_addr_Some_iff [OF srt, of k t] by simp_all
  obtain rest where fk: "from_key ?h k ?as = t # rest"
    using lookup_addr_SomeD [OF found] by blast
  have as_eq: "below ?h k ?as @ t # rest = ?as"
    using below_from_key [of ?h k ?as] fk by simp
  obtain ps where ps: "find_predecessors s k = Some ps" "length ps = Suc ?m"
    "\<forall>j\<le>?c. ps ! j = Some (pred_node ?h ?hdr ?as k j)"
    using find_predecessors_inv [OF inv] by blast
  have target: "get_node_at_level_zero ?h (ps ! 0) k = Some (Some t)"
    using ps get_node_at_level_zero_wf [OF wf, of k] found by simp
  obtain g where dis: "disconnect_levels (Suc ?c) 0 t ps ?h = Some g"
    and shape: "nlen g = nlen ?h" "key_of g = key_of ?h" "val_of g = val_of ?h"
    and wf1: "wf_heap (g(t := None)) ?hdr ?m ?c ?as'"
    using disconnect_levels_wf [OF wf found ps(2) ps(3)] by blast
  have loop: "disconnect_node_from_levels_loop 0 (current_max_level s) t ps ?h = Some g"
    using disconnect_node_from_levels_loop_eq [of "current_max_level s" 0 "Suc ?c" t ps ?h]
      dis c255 by simp
  have "0 < nlen g t"
    using wf t_in shape by (simp add: wf_heap_def)
  then obtain n where gt: "g t = Some n"
    by (auto dest: nlen_SomeD)
  have cnt: "0 < element_count s"
    using rel t_in by (auto simp: sl_rel_def)
  let ?g = "g(t := None)"
  let ?s1 = "s\<lparr>heap := ?g, element_count := element_count s - 1\<rparr>"
  have del: "delete_node s t ps = Some ?s1"
    using loop gt cnt by (simp add: delete_node_def disconnect_node_from_levels_def)
  have "?c < nlen ?g ?hdr"
    using wf1 cm by (simp add: wf_heap_def)
  then obtain c' where shr: "shrink_level ?g ?hdr ?c = Some c'" and c'le: "c' \<le> ?c"
    and top: "c' = 0 \<or> nx ?g c' ?hdr \<noteq> None"
    and empty: "\<forall>j. c' < j \<and> j \<le> ?c \<longrightarrow> nx ?g j ?hdr = None"
    using shrink_level_ok [of ?c ?g ?hdr] by blast
  have uc': "unat (of_nat c' :: 8 word) = c'"
    using c'le by (rule le_unat_uoi)
  let ?s' = "?s1\<lparr>current_max_level := of_nat c'\<rparr>"
  have aloop: "adjust_max_level_loop ?g ?hdr (current_max_level s) = Some (of_nat c')"
    using shr adjust_max_level_loop_eq [of ?c "current_max_level s" ?g ?hdr] by simp
  then have "adjust_max_level ?s1 = Some ?s'"
    by (simp add: adjust_max_level_def)
  then have run: "remove s k = Some (True, ?s')"
    using ps target del by (simp add: remove_def)
  have wf': "wf_heap ?g ?hdr ?m c' ?as'"
    using wf1 c'le empty by (rule wf_heap_shrink)
  have tl_fk: "tl (from_key ?h k ?as) = rest"
    using fk by simp
  have "set ?as = set (below ?h k ?as @ t # rest)"
    by (simp only: as_eq)
  then have set_as: "set ?as = insert t (set ?as')"
    by (simp add: tl_fk)
  have "distinct (below ?h k ?as @ t # rest)"
    using wf by (simp only: as_eq) (simp add: wf_heap_def)
  then have t_out: "t \<notin> set ?as'"
    by (simp add: tl_fk)
  have "length ?as = length (below ?h k ?as @ t # rest)"
    by (simp only: as_eq)
  then have len_as: "length ?as = Suc (length ?as')"
    by (simp add: tl_fk)
  have hp: "heap ?s' = ?g"
    by simp
  have rel': "sl_rel ?s' ?as'"
    unfolding sl_rel_def
  proof (intro conjI)
    show "wf_heap (heap ?s') (header ?s') (unat (max_level ?s')) (unat (current_max_level ?s')) ?as'"
      using wf' uc' by simp
    show "element_count ?s' = length ?as'"
      using rel len_as by (simp add: sl_rel_def)
    show "header ?s' < next_addr ?s'"
      using rel by (simp add: sl_rel_def)
    show "\<forall>a\<in>set ?as'. a < next_addr ?s'"
      using rel set_as by (simp add: sl_rel_def)
    show "unat (current_max_level ?s') < 255"
      using uc' c'le c255 by simp
  qed
  then have inv': "sl_inv ?s'" and nodes': "nodes ?s' = ?as'"
    by (rule sl_invI, rule sl_rel_nodes)
  have same: "a \<noteq> t \<Longrightarrow> key_of ?g a = key_of ?h a \<and> val_of ?g a = val_of ?h a" for a
    using shape by (simp add: key_of_upd_other val_of_upd_other)
  have "lookup ?s' k2 = ((lookup s)(k := None)) k2" for k2
  proof (rule option_eq_by_Some)
    fix w
    have "lookup ?s' k2 = Some w \<longleftrightarrow>
        (\<exists>a\<in>set (nodes ?s'). key_of (heap ?s') a = k2 \<and> val_of (heap ?s') a = w)"
      by (rule lookup_Some_iff [OF inv'])
    also have "\<dots> \<longleftrightarrow> (\<exists>a\<in>set ?as'. key_of ?g a = k2 \<and> val_of ?g a = w)"
      unfolding nodes' hp ..
    also have "\<dots> \<longleftrightarrow> ((lookup s)(k := None)) k2 = Some w"
    proof
      assume "\<exists>a\<in>set ?as'. key_of ?g a = k2 \<and> val_of ?g a = w"
      then obtain a where a: "a \<in> set ?as'" "key_of ?g a = k2" "val_of ?g a = w"
        by blast
      then have at: "a \<noteq> t" and a_in: "a \<in> set ?as"
        using t_out set_as by auto
      then have kv: "key_of ?h a = k2" "val_of ?h a = w"
        using a same by simp_all
      have "k2 \<noteq> k"
        using keys_unique [OF srt a_in t_in] at kv t_key by auto
      moreover have "lookup s k2 = Some w"
        using lookup_Some_iff [OF inv, of k2 w] a_in kv by blast
      ultimately show "((lookup s)(k := None)) k2 = Some w"
        by simp
    next
      assume r: "((lookup s)(k := None)) k2 = Some w"
      then have ne: "k2 \<noteq> k" and "lookup s k2 = Some w"
        by (auto split: if_splits)
      then obtain a where a: "a \<in> set ?as" "key_of ?h a = k2" "val_of ?h a = w"
        using lookup_Some_iff [OF inv, of k2 w] by blast
      then have at: "a \<noteq> t"
        using ne t_key by auto
      then have "a \<in> set ?as'" "key_of ?g a = k2" "val_of ?g a = w"
        using a same set_as by simp_all
      then show "\<exists>a\<in>set ?as'. key_of ?g a = k2 \<and> val_of ?g a = w"
        by blast
    qed
    finally show "lookup ?s' k2 = Some w \<longleftrightarrow> ((lookup s)(k := None)) k2 = Some w" .
  qed
  then have look: "lookup ?s' = (lookup s)(k := None)"
    by (rule ext)
  have cle: "current_max_level ?s' \<le> current_max_level s"
    using c'le uc' by (simp add: word_le_nat_alt)
  have ctop: "current_max_level ?s' = 0 \<or>
      nx (heap ?s') (unat (current_max_level ?s')) (header ?s') \<noteq> None"
    using top uc' by auto
  have cempty: "\<forall>j. unat (current_max_level ?s') < j \<and> j \<le> ?c \<longrightarrow>
      nx (heap ?s') j (header ?s') = None"
    using empty uc' by simp
  have "element_count ?s' = element_count s - 1" "max_level ?s' = max_level s"
    "header ?s' = header s" "next_addr ?s' = next_addr s" "gen ?s' = gen s" "heap ?s' t = None"
    by simp_all
  moreover have "adjust_max_level_loop (heap ?s') (header ?s') (current_max_level s) =
      Some (current_max_level ?s')"
    using aloop by simp
  ultimately show ?thesis
    using run inv' look cnt nodes' cle ctop cempty by blast
qed

section \<open>Every operation returns; reachable states\<close>

lemma le_255: "(i :: 8 word) \<le> 255"
proof -
  have "unat i < 2 ^ LENGTH(8)"
    by (rule unsigned_less)
  then show ?thesis
    by (simp add: word_le_nat_alt)
qed

text \<open>The loop of \<^verbatim>\<open>adjust_max_level_for_insertion\<close> does not return when the new level is
  255: its counter is never greater than 255.\<close>

lemma adjust_max_level_for_insertion_loop_returns:
  assumes "adjust_max_level_for_insertion_loop i level hdr ps = Some ps'"
  shows "level \<noteq> 255"
proof (rule adjust_max_level_for_insertion_loop.raw_induct
    [where P = "\<lambda>i level hdr ps y. level \<noteq> 255", OF _ assms])
  fix loop :: "8 word \<Rightarrow> 8 word \<Rightarrow> addr \<Rightarrow> ptr list \<Rightarrow> ptr list option"
    and i level :: "8 word" and hdr :: addr and ps y :: "ptr list"
  assume ih: "\<And>i level hdr ps y. loop i level hdr ps = Some y \<Longrightarrow> level \<noteq> 255"
    and body: "(if i \<le> level
      then if unat i < length ps then loop (i + 1) level hdr (ps[unat i := Some hdr]) else None
      else Some ps) = Some y"
  show "level \<noteq> 255"
  proof (cases "i \<le> level")
    case True
    then have "loop (i + 1) level hdr (ps[unat i := Some hdr]) = Some y"
      using body by (simp split: if_splits)
    then show ?thesis
      by (rule ih)
  next
    case False
    then show ?thesis
      using le_255 [of i] by auto
  qed
qed

lemma adjust_max_level_for_insertion_returns:
  assumes run: "adjust_max_level_for_insertion s lv ps = Some r"
    and c: "unat (current_max_level s) < 255"
  shows "unat lv < 255"
proof (cases "current_max_level s < lv")
  case True
  then obtain ps' where
    "adjust_max_level_for_insertion_loop (current_max_level s + 1) lv (header s) ps = Some ps'"
    using run by (auto simp: adjust_max_level_for_insertion_def split: Option.bind_splits)
  then have "lv \<noteq> 255"
    by (rule adjust_max_level_for_insertion_loop_returns)
  moreover have "unat lv \<le> 255"
    using le_255 [of lv] by (simp add: word_le_nat_alt)
  moreover have "lv = 255" if "unat lv = 255"
  proof -
    have "of_nat (unat lv) = lv"
      by simp
    then show ?thesis
      unfolding that by simp
  qed
  ultimately show ?thesis
    by (cases "unat lv = 255") simp_all
next
  case False
  then have "unat lv \<le> unat (current_max_level s)"
    by (simp add: word_less_nat_alt)
  then show ?thesis
    using c by simp
qed

text \<open>So a \<^verbatim>\<open>put\<close> of a new key returns only if the level drawn is below 255.\<close>

lemma put_returns_draw:
  fixes s :: "('k::linorder, 'v) skip_list"
  assumes inv: "sl_inv s" and absent: "lookup_addr (heap s) (nodes s) k = None"
    and run: "put s k v = Some s'"
  shows "unat (fst (generate_random_level s)) < 255"
proof -
  note wf = sl_inv_wf [OF inv]
  obtain ps where ps: "find_predecessors s k = Some ps"
    "\<forall>j\<le>unat (current_max_level s). ps ! j = Some (pred_node (heap s) (header s) (nodes s) k j)"
    using find_predecessors_inv [OF inv] by blast
  have "get_node_at_level_zero (heap s) (ps ! 0) k = Some None"
    using ps get_node_at_level_zero_wf [OF wf, of k] absent by simp
  then have ins: "insert_new_node s k v ps = Some s'"
    using run ps by (simp add: put_def)
  obtain lv s1 where g: "generate_random_level s = (lv, s1)"
    by (cases "generate_random_level s")
  then have s1: "s1 = s\<lparr>gen := gen s1\<rparr>"
    using generate_random_level_props [OF g] by simp
  obtain r where "adjust_max_level_for_insertion s1 lv ps = Some r"
    using ins g by (auto simp: insert_new_node_def split: Option.bind_splits)
  moreover have "unat (current_max_level s1) < 255"
    using inv by (subst s1) (simp add: sl_inv_def sl_rel_def)
  ultimately have "unat lv < 255"
    by (rule adjust_max_level_for_insertion_returns)
  then show ?thesis
    using g by simp
qed

lemma draw_below_max_level:
  "unat (max_level s) < 255 \<Longrightarrow> unat (fst (generate_random_level s)) < 255"
proof -
  assume m: "unat (max_level s) < 255"
  obtain lv s1 where g: "generate_random_level s = (lv, s1)"
    by (cases "generate_random_level s")
  then have "lv \<le> max_level s"
    using generate_random_level_props [OF g] by simp
  then show ?thesis
    using m g by (simp add: word_le_nat_alt)
qed

lemma put_total:
  fixes s :: "('k::linorder, 'v) skip_list"
  assumes inv: "sl_inv s" and draw: "unat (fst (generate_random_level s)) < 255"
  shows "\<exists>s'. put s k v = Some s' \<and> sl_inv s' \<and> lookup s' = (lookup s)(k \<mapsto> v) \<and>
      max_level s' = max_level s \<and>
      element_count s' = (if lookup s k = None then Suc (element_count s) else element_count s)"
proof (cases "lookup_addr (heap s) (nodes s) k")
  case None
  then have none: "lookup s k = None"
    using inv by (simp add: lookup_lookup_addr)
  obtain s' where s': "put s k v = Some s'" "sl_inv s'" "lookup s' = (lookup s)(k \<mapsto> v)"
    "element_count s' = Suc (element_count s)" "max_level s' = max_level s"
    using put_insert [OF inv draw None, of v] by blast
  show ?thesis
    by (intro exI [of _ s'] conjI) (simp_all add: s' none)
next
  case (Some t)
  then have some: "lookup s k \<noteq> None"
    using inv by (simp add: lookup_lookup_addr)
  obtain n where n: "put s k v = Some (s\<lparr>heap := (heap s)(t \<mapsto> n\<lparr>val := v\<rparr>)\<rparr>)"
    "sl_inv (s\<lparr>heap := (heap s)(t \<mapsto> n\<lparr>val := v\<rparr>)\<rparr>)"
    "lookup (s\<lparr>heap := (heap s)(t \<mapsto> n\<lparr>val := v\<rparr>)\<rparr>) = (lookup s)(k \<mapsto> v)"
    using put_update [OF inv Some, of v] by blast
  show ?thesis
    using some by (intro exI [of _ "s\<lparr>heap := (heap s)(t \<mapsto> n\<lparr>val := v\<rparr>)\<rparr>"] conjI)
      (simp_all add: n)
qed

lemma remove_total:
  fixes s :: "('k::linorder, 'v) skip_list"
  assumes inv: "sl_inv s"
  shows "\<exists>s'. remove s k = Some (lookup s k \<noteq> None, s') \<and> sl_inv s' \<and>
      lookup s' = (lookup s)(k := None) \<and> max_level s' = max_level s \<and>
      (lookup s k = None \<longrightarrow> s' = s) \<and>
      (lookup s k \<noteq> None \<longrightarrow> 0 < element_count s \<and> element_count s' = element_count s - 1)"
proof (cases "lookup_addr (heap s) (nodes s) k")
  case None
  then have none: "lookup s k = None"
    using inv by (simp add: lookup_lookup_addr)
  then have same: "(lookup s)(k := None) = lookup s"
    by (rule fun_upd_idem)
  show ?thesis
    by (intro exI [of _ s] conjI) (simp_all add: remove_absent [OF inv None] none inv same)
next
  case (Some t)
  then have some: "lookup s k \<noteq> None"
    using inv by (simp add: lookup_lookup_addr)
  obtain s' where s': "remove s k = Some (True, s')" "sl_inv s'"
    "lookup s' = (lookup s)(k := None)" "0 < element_count s"
    "element_count s' = element_count s - 1" "max_level s' = max_level s"
    using remove_found [OF inv Some] by blast
  show ?thesis
    using some by (intro exI [of _ s'] conjI) (auto simp: s')
qed

definition structural_invariant :: "('k::linorder, 'v) skip_list \<Rightarrow> bool" where
  "structural_invariant s \<longleftrightarrow>
     current_max_level s \<le> max_level s \<and>
     element_count s = length (level_chain s 0) \<and>
     (\<forall>i\<le>unat (max_level s).
        linked (nx (heap s) i) (header s # level_chain s i) None \<and>
        sorted_wrt (<) (map (key_of (heap s)) (level_chain s i)) \<and>
        level_chain s i = filter (\<lambda>a. i < nlen (heap s) a) (level_chain s 0) \<and>
        set (level_chain s (Suc i)) \<subseteq> set (level_chain s i))"

lemma level_chain_above: "nlen (heap s) (header s) \<le> i \<Longrightarrow> level_chain s i = []"
  by (simp add: level_chain_def nx_def fwd_nx)

lemma sl_inv_structural:
  assumes inv: "sl_inv s"
  shows "structural_invariant s"
proof -
  let ?h = "heap s" and ?m = "unat (max_level s)"
  note wf = sl_inv_wf [OF inv]
  have rel: "sl_rel s (nodes s)"
    using inv by (simp add: sl_inv_def)
  have lc: "i \<le> ?m \<Longrightarrow> level_chain s i = level_list ?h i (nodes s)" for i
    using sl_rel_level_chain [OF rel] by simp
  have srt: "sorted_wrt (<) (map (key_of ?h) (nodes s))"
    using wf by (simp add: wf_heap_def)
  have levels: "linked (nx ?h i) (header s # level_chain s i) None \<and>
      sorted_wrt (<) (map (key_of ?h) (level_chain s i)) \<and>
      level_chain s i = filter (\<lambda>a. i < nlen ?h a) (level_chain s 0) \<and>
      set (level_chain s (Suc i)) \<subseteq> set (level_chain s i)" if im: "i \<le> ?m" for i
  proof (intro conjI)
    show "linked (nx ?h i) (header s # level_chain s i) None"
      using wf im by (simp add: lc wf_heap_def)
    show "sorted_wrt (<) (map (key_of ?h) (level_chain s i))"
      using srt im by (simp add: lc level_list_def sorted_wrt_map sorted_wrt_filter)
    show "level_chain s i = filter (\<lambda>a. i < nlen ?h a) (level_chain s 0)"
      using im by (simp add: lc nodes_def [symmetric] level_list_def)
    show "set (level_chain s (Suc i)) \<subseteq> set (level_chain s i)"
    proof (cases "Suc i \<le> ?m")
      case True
      then show ?thesis
        using im level_list_Suc_subset [of ?h i "nodes s"] by (simp add: lc)
    next
      case False
      then have "nlen ?h (header s) \<le> Suc i"
        using wf by (simp add: wf_heap_def)
      then show ?thesis
        by (simp add: level_chain_above)
    qed
  qed
  have le: "current_max_level s \<le> max_level s"
    using wf by (simp add: wf_heap_def word_le_nat_alt)
  have cnt: "element_count s = length (level_chain s 0)"
    using rel by (simp add: sl_rel_def nodes_def)
  show ?thesis
    unfolding structural_invariant_def using le cnt levels by blast
qed

inductive reachable :: "('k::linorder, 'v) skip_list \<Rightarrow> bool" where
  reachable_init: "reachable (SkipList m coins k0 v0)"
| reachable_put: "reachable s \<Longrightarrow> put s k v = Some s' \<Longrightarrow> reachable s'"
| reachable_remove: "reachable s \<Longrightarrow> remove s k = Some (b, s') \<Longrightarrow> reachable s'"

lemma SkipList_max_level [simp]: "max_level (SkipList m coins k0 v0) = m"
  by (simp add: SkipList_def create_node_def)

lemma reachable_inv: "reachable s \<Longrightarrow> sl_inv s"
proof (induction rule: reachable.induct)
  case (reachable_init m coins k0 v0)
  show ?case
    by (rule SkipList_inv)
next
  case (reachable_put s k v s')
  show ?case
  proof (cases "lookup_addr (heap s) (nodes s) k")
    case None
    have "unat (fst (generate_random_level s)) < 255"
      using reachable_put.IH None reachable_put.hyps(2) by (rule put_returns_draw)
    then show ?thesis
      using put_total [OF reachable_put.IH, of k v] reachable_put.hyps(2) by auto
  next
    case (Some t)
    then show ?thesis
      using put_update [OF reachable_put.IH Some, of v] reachable_put.hyps(2) by auto
  qed
next
  case (reachable_remove s k b s')
  then show ?case
    using remove_total [of s k] by auto
qed

section \<open>A worked example\<close>

text \<open>
  The scenario of the specification: a list with \<^verbatim>\<open>max_level = 4\<close> and a generator whose
  first two flips succeed, after \<^verbatim>\<open>put(3, "c")\<close>, \<^verbatim>\<open>put(1, "a")\<close> and \<^verbatim>\<open>put(2, "b")\<close>. The
  node of key 3 gets level 2 and lives at address 1, the other two get level 0.
\<close>

definition demo_coins :: "nat \<Rightarrow> bool" where
  "demo_coins n = (n < 2)"

definition demo0 :: "(nat, string) skip_list" where
  "demo0 = SkipList 4 demo_coins 0 []"

definition demo1 :: "(nat, string) skip_list" where
  "demo1 = the (put demo0 3 ''c'')"

definition demo2 :: "(nat, string) skip_list" where
  "demo2 = the (put demo1 1 ''a'')"

definition demo3 :: "(nat, string) skip_list" where
  "demo3 = the (put demo2 2 ''b'')"

lemma reachable_put_the:
  assumes r: "reachable s" and m: "unat (max_level s) < 255"
  shows "reachable (the (put s k v)) \<and> unat (max_level (the (put s k v))) < 255"
proof -
  obtain s' where "put s k v = Some s'" "max_level s' = max_level s"
    using put_total [OF reachable_inv [OF r] draw_below_max_level [OF m], of k v] by blast
  then show ?thesis
    using r m reachable_put [of s k v s'] by simp
qed

lemma demo0_reachable: "reachable demo0 \<and> unat (max_level demo0) < 255"
  unfolding demo0_def using reachable_init [of 4 demo_coins "0::nat" "[]::string"] by simp

lemma demo1_reachable: "reachable demo1 \<and> unat (max_level demo1) < 255"
  unfolding demo1_def using demo0_reachable by (intro reachable_put_the) simp_all

lemma demo2_reachable: "reachable demo2 \<and> unat (max_level demo2) < 255"
  unfolding demo2_def using demo1_reachable by (intro reachable_put_the) simp_all

lemma demo3_reachable: "reachable demo3" and demo3_max_level: "unat (max_level demo3) < 255"
  unfolding demo3_def using demo2_reachable reachable_put_the [of demo2 2 "''b''"] by simp_all

lemma demo3_inv: "sl_inv demo3"
  using demo3_reachable by (rule reachable_inv)

lemma demo3_draw: "unat (fst (generate_random_level demo3)) < 255"
  using demo3_max_level by (rule draw_below_max_level)

lemma demo3_scenario:
  "get demo3 2 = Some (Some ''b'')" "size_of demo3 = 3" "current_max_level demo3 = 2"
  "get demo3 3 = Some (Some ''c'')" "get demo3 7 = Some None"
  "map_option fst (remove demo3 1) = Some True"
  "map_option (size_of \<circ> snd) (remove demo3 1) = Some 2"
  "map_option (\<lambda>r. get (snd r) 1) (remove demo3 1) = Some (Some None)"
  "map_option (\<lambda>r. map_option fst (remove (snd r) 1)) (remove demo3 1) = Some (Some False)"
  "map_option (current_max_level \<circ> snd) (remove demo3 3) = Some 0"
  by code_simp+

section \<open>The claims\<close>

text \<open>
  Claim C5. \<^verbatim>\<open>generate_random_level\<close> returns the length of the initial run of successful
  coin flips, capped at \<^verbatim>\<open>max_level_\<close>; so, whatever the coin outcomes are, the level it
  returns lies between 0 and \<^verbatim>\<open>max_level_\<close>.
\<close>

theorem generate_random_level_run:
  "unat (fst (generate_random_level s)) = success_run (gen s) (unat (max_level s)) \<and>
   fst (generate_random_level s) \<le> max_level s"
proof -
  have run: "unat (fst (generate_random_level_loop (max_level s) (gen s) 0)) =
      success_run (gen s) (unat (max_level s))"
    using generate_random_level_loop_run [of 0 "max_level s" "gen s"] by simp
  then have "unat (fst (generate_random_level_loop (max_level s) (gen s) 0)) \<le> unat (max_level s)"
    by (simp add: success_run_le)
  with run show ?thesis
    by (simp add: generate_random_level_def split_def Let_def word_le_nat_alt)
qed




text \<open>
  Claim C2. \<^verbatim>\<open>remove(k)\<close> returns true exactly when \<open>k\<close> was present. After a true removal
  \<^verbatim>\<open>get(k)\<close> is empty and \<^verbatim>\<open>size()\<close> is one less than before; when \<open>k\<close> was absent the
  list is unchanged. In both cases a second \<^verbatim>\<open>remove(k)\<close> returns false.
\<close>

theorem remove_correct:
  fixes s :: "('k::linorder, 'v) skip_list"
  assumes inv: "sl_inv s"
  shows "\<exists>s'. remove s k = Some (map_of (entries s) k \<noteq> None, s') \<and>
    (map_of (entries s) k \<noteq> None \<longrightarrow>
       get s' k = Some None \<and> 0 < size_of s \<and> size_of s' = size_of s - 1) \<and>
    (map_of (entries s) k = None \<longrightarrow> s' = s) \<and>
    remove s' k = Some (False, s')"
proof -
  from remove_total [OF inv, of k] obtain s' where
    all: "remove s k = Some (lookup s k \<noteq> None, s') \<and> sl_inv s' \<and>
      lookup s' = (lookup s)(k := None) \<and> max_level s' = max_level s \<and>
      (lookup s k = None \<longrightarrow> s' = s) \<and>
      (lookup s k \<noteq> None \<longrightarrow> 0 < element_count s \<and> element_count s' = element_count s - 1)" ..
  then have s': "remove s k = Some (lookup s k \<noteq> None, s')" "sl_inv s'"
    "lookup s' = (lookup s)(k := None)" "max_level s' = max_level s"
    "lookup s k = None \<longrightarrow> s' = s"
    "lookup s k \<noteq> None \<longrightarrow> 0 < element_count s \<and> element_count s' = element_count s - 1"
    by simp_all
  have gone: "lookup s' k = None"
    using s' by simp
  then have "lookup_addr (heap s') (nodes s') k = None"
    using lookup_None_iff [OF s'(2), of k] by simp
  then have again: "remove s' k = Some (False, s')"
    using s' by (intro remove_absent)
  have "get s' k = Some None"
    using s' gone by (simp add: get_inv)
  then show ?thesis
    using s' again by (intro exI [of _ s']) (simp add: lookup_def size_of_def)
qed

theorem remove_correct_witness:
  "sl_inv demo3 \<and> map_of (entries demo3) 1 \<noteq> None \<and>
   (\<exists>s'. remove demo3 1 = Some (True, s') \<and> get s' 1 = Some None \<and>
      size_of s' = size_of demo3 - 1 \<and> remove s' 1 = Some (False, s')) \<and>
   size_of demo3 = 3"
proof -
  have "get demo3 1 = Some (Some ''a'')"
    by code_simp
  then have "Some (lookup demo3 1) = Some (Some ''a'')"
    by (simp only: get_inv [OF demo3_inv, symmetric])
  then have present: "map_of (entries demo3) 1 \<noteq> None"
    by (simp add: lookup_def)
  have sz: "size_of demo3 = 3"
    by code_simp
  show ?thesis
    using remove_correct [OF demo3_inv, of 1] present sz demo3_inv by auto
qed

text \<open>
  Claim C3. \<^verbatim>\<open>put(k, v2)\<close> for a key that is present overwrites the value in place:
  \<^verbatim>\<open>get(k)\<close> then returns \<open>v2\<close>; no node is created (the same addresses are live and the
  level-0 chain is the same), every node keeps its level, the current maximum level,
  \<^verbatim>\<open>element_count_\<close> and \<^verbatim>\<open>size()\<close> are unchanged, and no random level is drawn.
\<close>

theorem put_existing_overwrites:
  fixes s :: "('k::linorder, 'v) skip_list"
  assumes inv: "sl_inv s" and present: "map_of (entries s) k \<noteq> None"
  shows "\<exists>s'. put s k v2 = Some s' \<and> get s' k = Some (Some v2) \<and>
    next_addr s' = next_addr s \<and> dom (heap s') = dom (heap s) \<and> nodes s' = nodes s \<and>
    nlen (heap s') = nlen (heap s) \<and> current_max_level s' = current_max_level s \<and>
    element_count s' = element_count s \<and> size_of s' = size_of s \<and> gen s' = gen s"
proof -
  from present obtain t where t: "lookup_addr (heap s) (nodes s) k = Some t"
    using lookup_lookup_addr [OF inv, of k] by (auto simp: lookup_def)
  obtain n where n: "heap s t = Some n"
    and run: "put s k v2 = Some (s\<lparr>heap := (heap s)(t \<mapsto> n\<lparr>val := v2\<rparr>)\<rparr>)"
    and inv': "sl_inv (s\<lparr>heap := (heap s)(t \<mapsto> n\<lparr>val := v2\<rparr>)\<rparr>)"
    and nodes': "nodes (s\<lparr>heap := (heap s)(t \<mapsto> n\<lparr>val := v2\<rparr>)\<rparr>) = nodes s"
    and nlen': "nlen ((heap s)(t \<mapsto> n\<lparr>val := v2\<rparr>)) = nlen (heap s)"
    and look: "lookup (s\<lparr>heap := (heap s)(t \<mapsto> n\<lparr>val := v2\<rparr>)\<rparr>) = (lookup s)(k \<mapsto> v2)"
    using put_update [OF inv t, of v2] by blast
  let ?s = "s\<lparr>heap := (heap s)(t \<mapsto> n\<lparr>val := v2\<rparr>)\<rparr>"
  have "get ?s k = Some (Some v2)"
    using inv' look by (simp add: get_inv)
  moreover have "dom (heap ?s) = dom (heap s)"
    using n by auto
  ultimately show ?thesis
    using run nodes' nlen' by (intro exI [of _ ?s]) (simp add: size_of_def)
qed

theorem put_existing_overwrites_witness:
  "sl_inv demo3 \<and> map_of (entries demo3) 2 \<noteq> None \<and>
   (\<exists>s'. put demo3 2 ''z'' = Some s' \<and> get s' 2 = Some (Some ''z'') \<and>
      size_of s' = size_of demo3 \<and> current_max_level s' = current_max_level demo3 \<and>
      next_addr s' = next_addr demo3) \<and>
   size_of demo3 = 3"
proof -
  have "get demo3 2 = Some (Some ''b'')"
    by code_simp
  then have "Some (lookup demo3 2) = Some (Some ''b'')"
    by (simp only: get_inv [OF demo3_inv, symmetric])
  then have present: "map_of (entries demo3) 2 \<noteq> None"
    by (simp add: lookup_def)
  have sz: "size_of demo3 = 3"
    by code_simp
  show ?thesis
    using put_existing_overwrites [OF demo3_inv present, of "''z''"] present sz demo3_inv
    by auto
qed

text \<open>
  Claim C4. Every state that the public operations can produce from a newly constructed
  list satisfies the structural invariant: \<^verbatim>\<open>current_max_level_\<close> is at most
  \<^verbatim>\<open>max_level_\<close> (both are unsigned), \<^verbatim>\<open>element_count_\<close> is the length of the level-0
  chain, and at every level the chain from the header ends in null, is strictly
  increasing in key and consists of the nodes of the level-0 chain that have that level
  (so the chain of level \<open>i + 1\<close> is contained in the chain of level \<open>i\<close>). Whatever
  \<^verbatim>\<open>put\<close> and \<^verbatim>\<open>remove\<close> return on such a state satisfies the invariant again;
  \<^verbatim>\<open>remove\<close>, \<^verbatim>\<open>get\<close> and \<^verbatim>\<open>contains\<close> always return, and \<^verbatim>\<open>put\<close> returns whenever the level
  it would draw for a new node is below 255. \<^verbatim>\<open>get\<close>, \<^verbatim>\<open>contains\<close>, \<^verbatim>\<open>size\<close> and \<^verbatim>\<open>empty\<close>
  write nothing.
\<close>

theorem operations_preserve_invariant:
  fixes s :: "('k::linorder, 'v) skip_list"
  assumes r: "reachable s"
  shows "structural_invariant s \<and>
    (\<forall>s'. put s k v = Some s' \<longrightarrow> structural_invariant s') \<and>
    (unat (fst (generate_random_level s)) < 255 \<longrightarrow> (\<exists>s'. put s k v = Some s')) \<and>
    (\<exists>b s'. remove s k = Some (b, s') \<and> structural_invariant s') \<and>
    (\<exists>x. get s k = Some x) \<and> (\<exists>b. contains s k = Some b)"
proof -
  have inv: "sl_inv s"
    using r by (rule reachable_inv)
  have "structural_invariant s'" if "put s k v = Some s'" for s'
    using reachable_put [OF r that] by (intro sl_inv_structural reachable_inv)
  moreover have "\<exists>s'. put s k v = Some s'" if "unat (fst (generate_random_level s)) < 255"
    using put_total [OF inv that, of k v] by blast
  moreover from remove_total [OF inv, of k] obtain s2 where
    "remove s k = Some (lookup s k \<noteq> None, s2) \<and> sl_inv s2 \<and>
      lookup s2 = (lookup s)(k := None) \<and> max_level s2 = max_level s \<and>
      (lookup s k = None \<longrightarrow> s2 = s) \<and>
      (lookup s k \<noteq> None \<longrightarrow> 0 < element_count s \<and> element_count s2 = element_count s - 1)" ..
  then have "\<exists>b s'. remove s k = Some (b, s') \<and> structural_invariant s'"
    using sl_inv_structural [of s2] by blast
  moreover have "structural_invariant s"
    using inv by (rule sl_inv_structural)
  moreover have "\<exists>x. get s k = Some x" "\<exists>b. contains s k = Some b"
    using inv by (simp_all add: get_inv contains_inv)
  ultimately show ?thesis
    by blast
qed

theorem operations_preserve_invariant_witness:
  "reachable demo3 \<and> unat (fst (generate_random_level demo3)) < 255 \<and>
   structural_invariant demo3 \<and>
   (\<exists>s'. put demo3 5 ''e'' = Some s' \<and> structural_invariant s') \<and>
   (\<exists>b s'. remove demo3 5 = Some (b, s') \<and> structural_invariant s') \<and>
   level_chain demo3 0 = [2, 3, 1] \<and> level_chain demo3 1 = [1] \<and> size_of demo3 = 3"
proof -
  have c: "level_chain demo3 0 = [2, 3, 1]" "level_chain demo3 1 = [1]" "size_of demo3 = 3"
    by code_simp+
  show ?thesis
    using operations_preserve_invariant [OF demo3_reachable, of 5 "''e''"] demo3_reachable
      demo3_draw c by auto
qed

text \<open>
  Claim C6. After a successful \<^verbatim>\<open>remove(k)\<close> the new \<^verbatim>\<open>current_max_level_\<close> is what the loop
  \<^verbatim>\<open>while (current_max_level_ > 0 && header_->forward_[current_max_level_] == nullptr)
  current_max_level_--\<close> computes from the old one on the heap without the node: it is
  not greater than before, it is 0 or the header has a successor at that level, and the
  header has no successor at any level between the new and the old maximum. So when the
  removed node was the only one of the maximum level, the level goes down to the highest
  level at which the header still has a successor, or to 0.
\<close>

theorem remove_adjusts_max_level:
  fixes s :: "('k::linorder, 'v) skip_list"
  assumes inv: "sl_inv s" and rm: "remove s k = Some (True, s')"
  shows "adjust_max_level_loop (heap s') (header s') (current_max_level s) =
      Some (current_max_level s') \<and>
    current_max_level s' \<le> current_max_level s \<and>
    (current_max_level s' = 0 \<or>
      (\<exists>a. fwd (heap s') (header s') (unat (current_max_level s')) = Some (Some a))) \<and>
    (\<forall>j. unat (current_max_level s') < j \<and> j \<le> unat (current_max_level s) \<longrightarrow>
      fwd (heap s') (header s') j = Some None)"
proof -
  obtain t where t: "lookup_addr (heap s) (nodes s) k = Some t"
    using rm remove_absent [OF inv, of k] by (cases "lookup_addr (heap s) (nodes s) k") auto
  from remove_found [OF inv t] obtain s2 where
    all: "remove s k = Some (True, s2) \<and> sl_inv s2 \<and> lookup s2 = (lookup s)(k := None) \<and>
      0 < element_count s \<and> element_count s2 = element_count s - 1 \<and>
      max_level s2 = max_level s \<and> header s2 = header s \<and> next_addr s2 = next_addr s \<and>
      gen s2 = gen s \<and>
      nodes s2 = below (heap s) k (nodes s) @ tl (from_key (heap s) k (nodes s)) \<and>
      heap s2 t = None \<and>
      current_max_level s2 \<le> current_max_level s \<and>
      (current_max_level s2 = 0 \<or>
        nx (heap s2) (unat (current_max_level s2)) (header s2) \<noteq> None) \<and>
      (\<forall>j. unat (current_max_level s2) < j \<and> j \<le> unat (current_max_level s) \<longrightarrow>
        nx (heap s2) j (header s2) = None) \<and>
      adjust_max_level_loop (heap s2) (header s2) (current_max_level s) =
        Some (current_max_level s2)" ..
  then have eq: "s2 = s'"
    using rm by simp
  have inv': "sl_inv s'" and mx: "max_level s' = max_level s"
    and le: "current_max_level s' \<le> current_max_level s"
    and top: "current_max_level s' = 0 \<or>
      nx (heap s') (unat (current_max_level s')) (header s') \<noteq> None"
    and empty: "\<forall>j. unat (current_max_level s') < j \<and> j \<le> unat (current_max_level s) \<longrightarrow>
      nx (heap s') j (header s') = None"
    and loop: "adjust_max_level_loop (heap s') (header s') (current_max_level s) =
      Some (current_max_level s')"
    using all unfolding eq by blast+
  have hl: "nlen (heap s') (header s') = Suc (unat (max_level s))"
    using sl_inv_wf [OF inv'] mx by (simp add: wf_heap_def)
  have cm: "unat (current_max_level s) \<le> unat (max_level s)"
    using sl_inv_wf [OF inv] by (simp add: wf_heap_def)
  have f: "j \<le> unat (current_max_level s) \<Longrightarrow>
      fwd (heap s') (header s') j = Some (nx (heap s') j (header s'))" for j
    using hl cm by (simp add: fwd_nx)
  have "current_max_level s' = 0 \<or>
      (\<exists>a. fwd (heap s') (header s') (unat (current_max_level s')) = Some (Some a))"
    using top le f [of "unat (current_max_level s')"] by (auto simp: word_le_nat_alt)
  moreover have "\<forall>j. unat (current_max_level s') < j \<and> j \<le> unat (current_max_level s) \<longrightarrow>
      fwd (heap s') (header s') j = Some None"
    using empty f by simp
  ultimately show ?thesis
    using loop le by blast
qed

theorem remove_adjusts_max_level_witness:
  "sl_inv demo3 \<and> remove demo3 3 = Some (True, snd (the (remove demo3 3))) \<and>
   current_max_level demo3 = 2 \<and> current_max_level (snd (the (remove demo3 3))) = 0 \<and>
   adjust_max_level_loop (heap (snd (the (remove demo3 3)))) (header (snd (the (remove demo3 3))))
     (current_max_level demo3) = Some (current_max_level (snd (the (remove demo3 3))))"
proof -
  have "get demo3 3 = Some (Some ''c'')"
    by code_simp
  then have "Some (lookup demo3 3) = Some (Some ''c'')"
    by (simp only: get_inv [OF demo3_inv, symmetric])
  then have present: "lookup demo3 3 \<noteq> None"
    by simp
  from remove_total [OF demo3_inv, of 3] obtain s' where
    "remove demo3 3 = Some (lookup demo3 3 \<noteq> None, s') \<and> sl_inv s' \<and>
      lookup s' = (lookup demo3)(3 := None) \<and> max_level s' = max_level demo3 \<and>
      (lookup demo3 3 = None \<longrightarrow> s' = demo3) \<and>
      (lookup demo3 3 \<noteq> None \<longrightarrow>
         0 < element_count demo3 \<and> element_count s' = element_count demo3 - 1)" ..
  then have rm: "remove demo3 3 = Some (True, snd (the (remove demo3 3)))"
    using present by simp
  have c: "current_max_level demo3 = 2" "current_max_level (snd (the (remove demo3 3))) = 0"
    by code_simp+
  show ?thesis
    using remove_adjusts_max_level [OF demo3_inv rm] rm c demo3_inv by simp
qed



end
